theory Spec2Isabelle
  imports
    Main
    "HOL-Library.Word"
    "HOL-Library.AList"
    "HOL-Library.Char_ord"
    "HOL-Library.List_Lexorder"
    "HOL-Library.Multiset"
begin

section \<open>Go integers and the strconv functions the tool calls\<close>

text \<open>
  Go's \<open>int\<close> on the 64-bit platforms the tool is built for is a 64-bit two's complement
  integer: \<open>+\<close> and \<open>-\<close> wrap around, comparisons are signed.
\<close>

type_synonym go_int = "64 word"

text \<open>\<open>strconv.Itoa\<close>: the decimal digits, most significant first, \<open>-\<close> before a
  negative number.\<close>

definition digit_char :: "nat \<Rightarrow> char" where
  "digit_char d = char_of (48 + d)"

function natstr :: "nat \<Rightarrow> string" where
  "natstr n = (if n < 10 then [digit_char n] else natstr (n div 10) @ [digit_char (n mod 10)])"
  by pat_completeness auto
termination
  by (relation "measure id") auto

definition Itoa :: "go_int \<Rightarrow> string" where
  "Itoa w = (if sint w < 0 then CHR ''-'' # natstr (nat (- sint w)) else natstr (nat (sint w)))"

text \<open>\<open>strconv.Atoi\<close>: an optional sign, then at least one decimal digit and nothing
  else; a value outside the 64-bit range is an error.\<close>

definition is_digit :: "char \<Rightarrow> bool" where
  "is_digit c = (48 \<le> (of_char c :: nat) \<and> (of_char c :: nat) \<le> 57)"

definition digit_val :: "char \<Rightarrow> nat" where
  "digit_val c = of_char c - 48"

definition strnat :: "string \<Rightarrow> nat" where
  "strnat ds = foldl (\<lambda>a c. a * 10 + digit_val c) 0 ds"

definition Atoi :: "string \<Rightarrow> go_int option" where
  "Atoi s =
    (let neg = (s \<noteq> [] \<and> hd s = CHR ''-'');
         ds = (if s \<noteq> [] \<and> (hd s = CHR ''-'' \<or> hd s = CHR ''+'') then tl s else s)
     in if ds = [] \<or> \<not> list_all is_digit ds then None
        else let v = (if neg then - int (strnat ds) else int (strnat ds))
             in if - (2 ^ 63) \<le> v \<and> v < 2 ^ 63 then Some (word_of_int v) else None)"

text \<open>\<open>fmt.Sprintf("%d/%d", a, b)\<close>.\<close>

definition sprintf_d_slash_d :: "go_int \<Rightarrow> go_int \<Rightarrow> string" where
  "sprintf_d_slash_d a b = Itoa a @ ''/'' @ Itoa b"

section \<open>The data model\<close>

text \<open>
  A Go map is an association list with distinct keys; the order of the list is the order
  in which \<open>range\<close> happens to visit the entries. A lookup is \<open>map_of\<close>, an assignment
  \<open>m[k] = v\<close> is \<open>AList.update\<close>. A pointer to a struct that is held in exactly one map
  slot is the struct in that slot, and a write through the pointer is an update of the slot.
\<close>

record Disk =
  dUUID :: string
  dIndex :: go_int
  dPool :: go_int
  dServer :: string
  dSet :: go_int
  dPath :: string
  dState :: string

record SetV =
  SCParity :: go_int
  RRSCParity :: go_int
  BadDisks :: go_int
  ID :: go_int
  Pool :: go_int
  CanReboot :: bool
  Disks :: "(string \<times> Disk) list"

record Server =
  Sets :: "(go_int \<times> SetV) list"
  Endpoint :: string
  Rebooted :: bool
  Processed :: bool

record Pool =
  Servers :: "(string \<times> Server) list"

text \<open>The part of \<open>madmin.StorageInfo\<close> that \<open>getInfra\<close> reads.\<close>

record madmin_Disk =
  mEndpoint :: string
  mDrivePath :: string
  mState :: string
  mUUID :: string
  mPoolIndex :: go_int
  mSetIndex :: go_int
  mDiskIndex :: go_int

record BackendInfo =
  StandardSCParity :: go_int
  bRRSCParity :: go_int

record StorageInfo =
  iDisks :: "madmin_Disk list"
  Backend :: BackendInfo

text \<open>
  \<open>url.Parse\<close> of the standard library is a parameter of the model: it returns the
  \<open>Hostname()\<close> and the \<open>Path\<close> of the parsed URL, or \<open>None\<close> where it returns an error.
\<close>

type_synonym url_parser = "string \<Rightarrow> (string \<times> string) option"

datatype panic = UrlParsePanic | AtoiPanic | IndexOutOfRange | NilDereference | NilMapAssignment

section \<open>getInfra: from disk records to Pool, Server, Set, Disk\<close>

type_synonym pools = "(string \<times> Pool) list"
type_synonym set_info = "(string \<times> (string \<times> SetV) list) list"

record infra_state =
  st_pools :: pools
  st_setInfo :: set_info
  st_totalServers :: go_int

definition lookup2 :: "('a \<times> ('b \<times> 'c) list) list \<Rightarrow> 'a \<Rightarrow> 'b \<Rightarrow> 'c option" where
  "lookup2 m a b = (case map_of m a of None \<Rightarrow> None | Some m' \<Rightarrow> map_of m' b)"

definition newServer :: "string \<Rightarrow> Server" where
  "newServer host = \<lparr>Sets = [], Endpoint = host, Rebooted = False, Processed = False\<rparr>"

definition newSet :: "BackendInfo \<Rightarrow> madmin_Disk \<Rightarrow> SetV" where
  "newSet b d = \<lparr>SCParity = StandardSCParity b, RRSCParity = bRRSCParity b, BadDisks = 0,
     ID = mSetIndex d + 1, Pool = mPoolIndex d + 1, CanReboot = False, Disks = []\<rparr>"

definition newSetInfo :: "BackendInfo \<Rightarrow> madmin_Disk \<Rightarrow> SetV" where
  "newSetInfo b d = \<lparr>SCParity = StandardSCParity b, RRSCParity = bRRSCParity b, BadDisks = 0,
     ID = mSetIndex d + 1, Pool = mPoolIndex d + 1, CanReboot = True, Disks = []\<rparr>"

definition newDisk :: "string \<Rightarrow> madmin_Disk \<Rightarrow> Disk" where
  "newDisk upath d = \<lparr>dUUID = mUUID d, dIndex = mDiskIndex d, dPool = mPoolIndex d + 1,
     dServer = mEndpoint d, dSet = mSetIndex d + 1,
     dPath = (if mDrivePath d = [] then upath else mDrivePath d), dState = mState d\<rparr>"

text \<open>One iteration of the loop over \<open>info.Disks\<close>.\<close>

definition addDisk :: "url_parser \<Rightarrow> BackendInfo \<Rightarrow> madmin_Disk \<Rightarrow> infra_state \<Rightarrow> panic + infra_state" where
  "addDisk parse b d st =
    (let PI = Itoa (mPoolIndex d + 1);
         SI = mSetIndex d + 1;
         si0 = (case map_of (st_setInfo st) PI of
                  None \<Rightarrow> AList.update PI [] (st_setInfo st) | Some _ \<Rightarrow> st_setInfo st);
         pool = (case map_of (st_pools st) PI of None \<Rightarrow> \<lparr>Servers = []\<rparr> | Some p \<Rightarrow> p)
     in case parse (mEndpoint d) of
          None \<Rightarrow> Inl UrlParsePanic
        | Some (host, upath) \<Rightarrow>
           (let (server, total) = (case map_of (Servers pool) host of
                    None \<Rightarrow> (newServer host, st_totalServers st + 1)
                  | Some s \<Rightarrow> (s, st_totalServers st));
                sset = (case map_of (Sets server) SI of None \<Rightarrow> newSet b d | Some x \<Rightarrow> x);
                simap = (case map_of si0 PI of None \<Rightarrow> [] | Some m \<Rightarrow> m);
                seti = (case map_of simap (Itoa SI) of None \<Rightarrow> newSetInfo b d | Some x \<Rightarrow> x);
                seti' = (if mState d \<noteq> ''ok'' then seti\<lparr>BadDisks := BadDisks seti + 1\<rparr> else seti);
                sset' = sset\<lparr>Disks := AList.update (mEndpoint d) (newDisk upath d) (Disks sset)\<rparr>;
                server' = server\<lparr>Sets := AList.update SI sset' (Sets server)\<rparr>;
                pool' = pool\<lparr>Servers := AList.update host server' (Servers pool)\<rparr>
            in Inr \<lparr>st_pools = AList.update PI pool' (st_pools st),
                    st_setInfo = AList.update PI (AList.update (Itoa SI) seti' simap) si0,
                    st_totalServers = total\<rparr>))"

text \<open>A loop over a list whose body may panic: the first panic ends the loop.\<close>

fun foldE :: "('a \<Rightarrow> 's \<Rightarrow> panic + 's) \<Rightarrow> 'a list \<Rightarrow> 's \<Rightarrow> panic + 's" where
  "foldE f [] s = Inr s"
| "foldE f (x # xs) s = (case f x s of Inl e \<Rightarrow> Inl e | Inr s' \<Rightarrow> foldE f xs s')"

definition addDisks :: "url_parser \<Rightarrow> BackendInfo \<Rightarrow> madmin_Disk list \<Rightarrow> infra_state \<Rightarrow> panic + infra_state" where
  "addDisks parse b ds st = foldE (addDisk parse b) ds st"

definition init_state :: infra_state where
  "init_state = \<lparr>st_pools = [], st_setInfo = [], st_totalServers = 0\<rparr>"

text \<open>The second loop: every per-server Set takes \<open>BadDisks\<close> and \<open>CanReboot\<close> from the
  entry of \<open>setInfo\<close> for its pool key and set id. The loop writes through the pointers
  held in the maps, so no map gains, loses or moves an entry.\<close>

definition finishSet :: "set_info \<Rightarrow> string \<Rightarrow> go_int \<Rightarrow> SetV \<Rightarrow> SetV" where
  "finishSet si i iii vvv =
    (case lookup2 si i (Itoa iii) of
       None \<Rightarrow> vvv
     | Some seti \<Rightarrow>
         vvv\<lparr>CanReboot := (if SCParity seti - 1 \<le>s BadDisks seti then False else True),
             BadDisks := BadDisks seti\<rparr>)"

definition finishServer :: "set_info \<Rightarrow> string \<Rightarrow> Server \<Rightarrow> Server" where
  "finishServer si i vv = vv\<lparr>Sets := map (\<lambda>(iii, vvv). (iii, finishSet si i iii vvv)) (Sets vv)\<rparr>"

definition finishPool :: "set_info \<Rightarrow> string \<Rightarrow> Pool \<Rightarrow> Pool" where
  "finishPool si i v = v\<lparr>Servers := map (\<lambda>(h, vv). (h, finishServer si i vv)) (Servers v)\<rparr>"

definition finishPools :: "set_info \<Rightarrow> pools \<Rightarrow> pools" where
  "finishPools si ps = map (\<lambda>(i, v). (i, finishPool si i v)) ps"

definition getInfra :: "url_parser \<Rightarrow> StorageInfo \<Rightarrow> panic + (pools \<times> go_int)" where
  "getInfra parse info =
    (case addDisks parse (Backend info) (iDisks info) init_state of
       Inl e \<Rightarrow> Inl e
     | Inr st \<Rightarrow> Inr (finishPools (st_setInfo st) (st_pools st), st_totalServers st))"


subsection \<open>Reading the topology\<close>

text \<open>The Server under a pool key and a hostname, and the per-server view of a Set under
  a pool key, a hostname and a set id.\<close>

definition serverAt :: "pools \<Rightarrow> string \<Rightarrow> string \<Rightarrow> Server option" where
  "serverAt ps pk h = (case map_of ps pk of None \<Rightarrow> None | Some p \<Rightarrow> map_of (Servers p) h)"

definition view :: "pools \<Rightarrow> string \<Rightarrow> string \<Rightarrow> go_int \<Rightarrow> SetV option" where
  "view ps pk h sid =
    (case map_of ps pk of None \<Rightarrow> None
     | Some p \<Rightarrow> (case map_of (Servers p) h of None \<Rightarrow> None | Some s \<Rightarrow> map_of (Sets s) sid))"

text \<open>What \<open>addDisk\<close> finds, or creates, for a disk record before it writes.\<close>

definition oldPool :: "infra_state \<Rightarrow> madmin_Disk \<Rightarrow> Pool" where
  "oldPool st d = (case map_of (st_pools st) (Itoa (mPoolIndex d + 1)) of
                     None \<Rightarrow> \<lparr>Servers = []\<rparr> | Some p \<Rightarrow> p)"

definition oldServer :: "infra_state \<Rightarrow> madmin_Disk \<Rightarrow> string \<Rightarrow> Server" where
  "oldServer st d host = (case map_of (Servers (oldPool st d)) host of
                     None \<Rightarrow> newServer host | Some s \<Rightarrow> s)"

definition oldSet :: "BackendInfo \<Rightarrow> infra_state \<Rightarrow> madmin_Disk \<Rightarrow> string \<Rightarrow> SetV" where
  "oldSet b st d host = (case map_of (Sets (oldServer st d host)) (mSetIndex d + 1) of
                     None \<Rightarrow> newSet b d | Some x \<Rightarrow> x)"

definition oldSetInfo :: "BackendInfo \<Rightarrow> infra_state \<Rightarrow> madmin_Disk \<Rightarrow> SetV" where
  "oldSetInfo b st d = (case lookup2 (st_setInfo st) (Itoa (mPoolIndex d + 1)) (Itoa (mSetIndex d + 1)) of
                     None \<Rightarrow> newSetInfo b d | Some x \<Rightarrow> x)"

text \<open>The disk records of one \<open>setInfo\<close> entry that are not \<open>ok\<close>; the hostname of a
  record; the records that land in one per-server view; the Disk a record is stored as.\<close>

definition badCount :: "string \<Rightarrow> string \<Rightarrow> madmin_Disk list \<Rightarrow> nat" where
  "badCount pk k ds = length (filter (\<lambda>d. Itoa (mPoolIndex d + 1) = pk \<and>
      Itoa (mSetIndex d + 1) = k \<and> mState d \<noteq> ''ok'') ds)"

definition urlHost :: "url_parser \<Rightarrow> madmin_Disk \<Rightarrow> string option" where
  "urlHost parse d = map_option fst (parse (mEndpoint d))"

definition diskOf :: "url_parser \<Rightarrow> madmin_Disk \<Rightarrow> Disk" where
  "diskOf parse d = newDisk (case parse (mEndpoint d) of None \<Rightarrow> [] | Some (h, p) \<Rightarrow> p) d"

definition inView :: "url_parser \<Rightarrow> string \<Rightarrow> string \<Rightarrow> go_int \<Rightarrow> madmin_Disk \<Rightarrow> bool" where
  "inView parse pk h sid d =
     (Itoa (mPoolIndex d + 1) = pk \<and> urlHost parse d = Some h \<and> mSetIndex d + 1 = sid)"

definition countServers :: "pools \<Rightarrow> nat" where
  "countServers ps = sum_list (map (\<lambda>kp. length (Servers (snd kp))) ps)"

text \<open>The number of disk records of the erasure set \<open>(pool, set)\<close> that are not \<open>ok\<close>,
  over all servers.\<close>

definition badDisksOf :: "go_int \<Rightarrow> go_int \<Rightarrow> madmin_Disk list \<Rightarrow> nat" where
  "badDisksOf pool sid ds = length (filter (\<lambda>d. mPoolIndex d + 1 = pool \<and>
      mSetIndex d + 1 = sid \<and> mState d \<noteq> ''ok'') ds)"

text \<open>A stand-in for \<open>url.Parse\<close> on endpoints of the form \<open>host/path\<close>, to run the
  model on concrete records: the hostname is what precedes the first slash.\<close>

definition slashParser :: url_parser where
  "slashParser s = (if s = [] then None
     else Some (takeWhile (\<lambda>c. c \<noteq> CHR ''/'') s, dropWhile (\<lambda>c. c \<noteq> CHR ''/'') s))"

definition mkDisk :: "go_int \<Rightarrow> go_int \<Rightarrow> string \<Rightarrow> string \<Rightarrow> madmin_Disk" where
  "mkDisk p s ep state = \<lparr>mEndpoint = ep, mDrivePath = [], mState = state, mUUID = [],
     mPoolIndex = p, mSetIndex = s, mDiskIndex = 0\<rparr>"


text \<open>The topology \<open>getInfra\<close> returns for a storage info whose endpoints
  \<open>slashParser\<close> reads, and sample storage infos.\<close>

definition topoOf :: "StorageInfo \<Rightarrow> pools" where
  "topoOf info = (case getInfra slashParser info of Inr (ps, n) \<Rightarrow> ps | Inl e \<Rightarrow> [])"

definition info2 :: StorageInfo where
  "info2 = \<lparr>iDisks = [mkDisk 0 0 ''a/d1'' ''ok'', mkDisk 0 0 ''b/d1'' ''ok'',
                      mkDisk 0 1 ''a/d2'' ''offline'', mkDisk 0 1 ''b/d2'' ''ok''],
            Backend = \<lparr>StandardSCParity = 2, bRRSCParity = 1\<rparr>\<rparr>"

definition infoDup :: StorageInfo where
  "infoDup = \<lparr>iDisks = [mkDisk 0 0 ''a/d1'' ''offline'', mkDisk 0 0 ''b/d1'' ''ok'',
                        mkDisk 0 0 ''a/d1'' ''ok''],
              Backend = \<lparr>StandardSCParity = 4, bRRSCParity = 1\<rparr>\<rparr>"


section \<open>makeHostfile: the reboot rounds\<close>

text \<open>\<open>stringKeysSorted\<close>: the keys of a map, sorted as \<open>sort.Strings\<close> sorts them
  (bytewise lexicographic order).\<close>

definition stringKeysSorted :: "(string \<times> 'v) list \<Rightarrow> string list" where
  "stringKeysSorted m = sort (map fst m)"

fun areAllSetsOK_loop :: "(go_int \<times> SetV) list \<Rightarrow> bool" where
  "areAllSetsOK_loop [] = True"
| "areAllSetsOK_loop ((k, st) # rest) = (if \<not> CanReboot st then False else areAllSetsOK_loop rest)"

definition areAllSetsOK :: "Server \<Rightarrow> bool" where
  "areAllSetsOK s1 = areAllSetsOK_loop (Sets s1)"

fun haveMatchingSets_loop :: "(go_int \<times> SetV) list \<Rightarrow> Server \<Rightarrow> bool" where
  "haveMatchingSets_loop [] s2 = False"
| "haveMatchingSets_loop ((setid, st) # rest) s2 =
     (if map_of (Sets s2) setid \<noteq> None then True else haveMatchingSets_loop rest s2)"

definition haveMatchingSets :: "Server \<Rightarrow> Server \<Rightarrow> bool" where
  "haveMatchingSets s1 s2 = haveMatchingSets_loop (Sets s1) s2"

text \<open>The loop over the servers already in the round of this pool, left by
  \<open>continue nextServer\<close> at the first one that shares a set with \<open>s\<close>.\<close>

fun conflictsWith :: "(string \<times> Server) list \<Rightarrow> Server \<Rightarrow> bool" where
  "conflictsWith [] s = False"
| "conflictsWith ((k, rv) # rest) s = (if haveMatchingSets rv s then True else conflictsWith rest s)"

text \<open>
  The state of the loops of \<open>makeHostfile\<close>: the pools (for the \<open>Processed\<close> flags), the
  array \<open>rebootRounds\<close> of 200 by 200 maps, each \<open>nil\<close> (\<open>None\<close>) until it is made, the map
  \<open>unhealthy\<close>, and the counter \<open>processed\<close>. The maps hold pointers to the Servers of
  the pools; a Server is written once, when it enters a round, and the maps hold it as
  it is after that write.
\<close>

record sched_state =
  ss_pools :: pools
  rebootRounds :: "nat \<Rightarrow> nat \<Rightarrow> (string \<times> Server) list option"
  unhealthy :: "(string \<times> Server) list"
  processed :: go_int

definition roundsLen :: nat where
  "roundsLen = 200"

text \<open>The set ids a Server has.\<close>

definition setIds :: "Server \<Rightarrow> go_int set" where
  "setIds s = fst ` set (Sets s)"

text \<open>A Server enters round \<open>i\<close> of the pool with array index \<open>pid\<close>: the three
  assignments at the end of the loop body.\<close>

definition placeServer :: "nat \<Rightarrow> nat \<Rightarrow> string \<Rightarrow> string \<Rightarrow> Pool \<Rightarrow> Server \<Rightarrow>
    (string \<times> Server) list \<Rightarrow> sched_state \<Rightarrow> sched_state" where
  "placeServer i pid pkey skey v s round st =
     st\<lparr>ss_pools := AList.update pkey
           (v\<lparr>Servers := AList.update skey (s\<lparr>Processed := True\<rparr>) (Servers v)\<rparr>) (ss_pools st),
        rebootRounds := (rebootRounds st)
           (i := (rebootRounds st i)(pid \<mapsto> AList.update (Endpoint s) (s\<lparr>Processed := True\<rparr>) round)),
        processed := processed st + 1\<rparr>"

text \<open>The body of the loop over the sorted server keys of one pool.\<close>

definition scheduleServer :: "nat \<Rightarrow> nat \<Rightarrow> string \<Rightarrow> string \<Rightarrow> sched_state \<Rightarrow> panic + sched_state" where
  "scheduleServer i pid pkey skey st =
    (case map_of (ss_pools st) pkey of
       None \<Rightarrow> Inl NilDereference
     | Some v \<Rightarrow>
        (case map_of (Servers v) skey of
           None \<Rightarrow> Inl NilDereference
         | Some s \<Rightarrow>
            if Processed s then Inr st
            else if \<not> areAllSetsOK s
              then Inr (st\<lparr>unhealthy := AList.update (Endpoint s) s (unhealthy st)\<rparr>)
            else
              (let round = (case rebootRounds st i pid of None \<Rightarrow> [] | Some m \<Rightarrow> m)
               in if map_of round (Endpoint s) = None then
                    (if conflictsWith round s then Inr st
                     else if rebootRounds st i pid = None then Inl NilMapAssignment
                     else Inr (placeServer i pid pkey skey v s round st))
                  else Inr st)))"

text \<open>\<open>if rebootRounds[i][pid] == nil { rebootRounds[i][pid] = make(map[string]*Server) }\<close>\<close>

definition makeRound :: "nat \<Rightarrow> nat \<Rightarrow> sched_state \<Rightarrow> sched_state" where
  "makeRound i pid st =
     (if rebootRounds st i pid = None
      then st\<lparr>rebootRounds := (rebootRounds st)(i := (rebootRounds st i)(pid \<mapsto> []))\<rparr>
      else st)"

text \<open>The body of the loop over the sorted pool keys, in round \<open>i\<close>. An index \<open>pid\<close>
  outside the array is a run-time panic.\<close>

definition schedulePool :: "nat \<Rightarrow> string \<Rightarrow> sched_state \<Rightarrow> panic + sched_state" where
  "schedulePool i pkey st =
    (case Atoi pkey of
       None \<Rightarrow> Inl AtoiPanic
     | Some pidw \<Rightarrow>
        if sint pidw < 0 \<or> int roundsLen \<le> sint pidw then Inl IndexOutOfRange
        else
          (case map_of (ss_pools st) pkey of
             None \<Rightarrow> Inl NilDereference
           | Some v \<Rightarrow>
               foldE (scheduleServer i (nat (sint pidw)) pkey) (stringKeysSorted (Servers v))
                 (makeRound i (nat (sint pidw)) st)))"

text \<open>
  The loop over the rounds: \<open>k\<close> rounds are left and \<open>i\<close> is the loop variable. The result
  carries what the early exit prints, \<open>Total\<close> and \<open>Online\<close>, or \<open>None\<close> when the loop
  reaches the end of the array without the early exit.
\<close>

fun roundLoop :: "nat \<Rightarrow> nat \<Rightarrow> string list \<Rightarrow> go_int \<Rightarrow> sched_state \<Rightarrow>
    panic + (sched_state \<times> (go_int \<times> go_int) option)" where
  "roundLoop 0 i poolss totalServers st = Inr (st, None)"
| "roundLoop (Suc k) i poolss totalServers st =
    (if totalServers \<le>s processed st then Inr (st, Some (totalServers, processed st))
     else case foldE (schedulePool i) poolss st of
            Inl e \<Rightarrow> Inl e
          | Inr st' \<Rightarrow> roundLoop k (Suc i) poolss totalServers st')"

definition sched_init :: "pools \<Rightarrow> sched_state" where
  "sched_init ps = \<lparr>ss_pools = ps, rebootRounds = (\<lambda>i pid. None), unhealthy = [], processed = 0\<rparr>"

definition schedule :: "pools \<Rightarrow> go_int \<Rightarrow> panic + (sched_state \<times> (go_int \<times> go_int) option)" where
  "schedule ps totalServers = roundLoop roundsLen 0 (stringKeysSorted ps) totalServers (sched_init ps)"

definition makeHostfile :: "url_parser \<Rightarrow> StorageInfo \<Rightarrow>
    panic + (sched_state \<times> (go_int \<times> go_int) option)" where
  "makeHostfile parse info =
    (case getInfra parse info of
       Inl e \<Rightarrow> Inl e
     | Inr (ps, totalServers) \<Rightarrow> schedule ps totalServers)"

text \<open>What is written out: the file \<open>failure\<close> has the endpoints of \<open>unhealthy\<close>, in the
  order \<open>range\<close> visits the map; the file \<open>round-ri\<close> has, for each non-empty map of round
  \<open>ri\<close> in the order of the array, its endpoints in the order of the sorted keys.\<close>

definition failureFile :: "sched_state \<Rightarrow> string list" where
  "failureFile st = map (\<lambda>(k, v). Endpoint v) (unhealthy st)"

definition roundFile :: "sched_state \<Rightarrow> nat \<Rightarrow> string list" where
  "roundFile st ri = concat (map (\<lambda>pid.
      case rebootRounds st ri pid of
        None \<Rightarrow> []
      | Some rv2 \<Rightarrow> concat (map (\<lambda>rvkey. case map_of rv2 rvkey of
                                  None \<Rightarrow> [] | Some sv \<Rightarrow> [Endpoint sv]) (stringKeysSorted rv2)))
      [0..<roundsLen])"

text \<open>A Server is in round \<open>i\<close> under the array index \<open>pid\<close> and the key \<open>e\<close>.\<close>

definition inRound :: "sched_state \<Rightarrow> nat \<Rightarrow> nat \<Rightarrow> string \<Rightarrow> Server \<Rightarrow> bool" where
  "inRound st i pid e s = (case rebootRounds st i pid of None \<Rightarrow> False | Some m \<Rightarrow> map_of m e = Some s)"

section \<open>heal: starting and monitoring the heal jobs\<close>

record HealOpts =
  DryRun :: bool
  Remove :: bool
  Recreate :: bool
  UpdateParity :: bool
  NoLock :: bool
  Recursive :: bool
  ScanMode :: go_int
  hoPool :: go_int
  hoSet :: go_int

text \<open>One item of a heal status: what \<open>GetMissingCounts\<close>, \<open>GetCorruptedCounts\<close> and
  \<open>GetOfflineCounts\<close> return for it, before and after the heal.\<close>

record heal_item =
  mb :: go_int
  ma :: go_int
  cb :: go_int
  ca :: go_int
  ofb :: go_int
  ofa :: go_int

text \<open>What a call of \<open>mclient.Heal\<close> returns: an error, or a status with its items.\<close>

datatype heal_reply = HealError | HealStatus "heal_item list"

text \<open>What a monitor does that others can see: a call of \<open>mclient.Heal\<close> (options,
  \<open>forceStart\<close>, \<open>forceStop\<close>) and a write to \<open>healMap\<close>, made under the lock.\<close>

datatype heal_event = HealCall HealOpts bool bool | MapWrite string go_int

datatype monitor_status = Polling | Exited

definition healOpts :: "go_int \<Rightarrow> go_int \<Rightarrow> HealOpts" where
  "healOpts poolIndex setIndex = \<lparr>DryRun = False, Remove = False, Recreate = False,
     UpdateParity = False, NoLock = False, Recursive = True, ScanMode = 1,
     hoPool = poolIndex, hoSet = setIndex\<rparr>"

text \<open>The key of every write of \<open>healSet\<close> to \<open>healMap\<close>:
  \<open>fmt.Sprintf("%d/%d", poolIndex, poolIndex)\<close>.\<close>

definition healSetKey :: "go_int \<Rightarrow> go_int \<Rightarrow> string" where
  "healSetKey poolIndex setIndex = sprintf_d_slash_d poolIndex poolIndex"

definition invalidStates :: "heal_item list \<Rightarrow> go_int" where
  "invalidStates items = foldl (\<lambda>acc v. acc + ma v + ca v + ofa v) 0 items"

fun healDone :: "heal_item list \<Rightarrow> bool" where
  "healDone [] = True"
| "healDone (v # rest) =
     (if 0 <s mb v + ma v + cb v + ca v + ofb v + ofa v then False else healDone rest)"

text \<open>
  The polling loop of \<open>healSet\<close> against the replies the calls get, in order. When the
  replies run out the monitor is still in the loop, waiting for the next one.
\<close>

fun healPoll :: "go_int \<Rightarrow> go_int \<Rightarrow> heal_reply list \<Rightarrow> heal_event list \<times> monitor_status" where
  "healPoll p s [] = ([HealCall (healOpts p s) False False], Polling)"
| "healPoll p s (HealError # rs) = ([HealCall (healOpts p s) False False], Exited)"
| "healPoll p s (HealStatus items # rs) =
     (if healDone items
      then ([HealCall (healOpts p s) False False, MapWrite (healSetKey p s) (invalidStates items)], Exited)
      else (case healPoll p s rs of
              (ev, status) \<Rightarrow>
                (HealCall (healOpts p s) False False #
                 MapWrite (healSetKey p s) (invalidStates items) # ev, status)))"

text \<open>\<open>healSet\<close>: the first call starts the heal; the deferred function writes 0 under
  the key when the function returns.\<close>

definition healSet :: "go_int \<Rightarrow> go_int \<Rightarrow> heal_reply list \<Rightarrow> heal_event list \<times> monitor_status" where
  "healSet poolIndex setIndex replies =
    (case replies of
       [] \<Rightarrow> ([HealCall (healOpts poolIndex setIndex) True False], Polling)
     | HealError # rs \<Rightarrow>
         ([HealCall (healOpts poolIndex setIndex) True False,
           MapWrite (healSetKey poolIndex setIndex) 0], Exited)
     | HealStatus items # rs \<Rightarrow>
         (case healPoll poolIndex setIndex rs of
            (ev, Exited) \<Rightarrow>
              (HealCall (healOpts poolIndex setIndex) True False # ev @
               [MapWrite (healSetKey poolIndex setIndex) 0], Exited)
          | (ev, Polling) \<Rightarrow> (HealCall (healOpts poolIndex setIndex) True False # ev, Polling)))"

text \<open>The writes of a monitor, applied to \<open>healMap\<close> in order.\<close>

fun applyEvents :: "heal_event list \<Rightarrow> (string \<times> go_int) list \<Rightarrow> (string \<times> go_int) list" where
  "applyEvents [] hm = hm"
| "applyEvents (MapWrite k v # evs) hm = applyEvents evs (AList.update k v hm)"
| "applyEvents (HealCall opts fstart fstop # evs) hm = applyEvents evs hm"

text \<open>\<open>heal\<close>: for every pool, for every server that is the configured endpoint or alone
  in its pool, for every set id of the server, register the set in \<open>healMap\<close> with 1 and
  start a monitor.\<close>

record heal_state =
  healMap :: "(string \<times> go_int) list"
  monitors :: "(go_int \<times> go_int) list"

definition healStartSet :: "go_int \<Rightarrow> go_int \<Rightarrow> heal_state \<Rightarrow> heal_state" where
  "healStartSet poolIndex si hs =
     hs\<lparr>healMap := AList.update (sprintf_d_slash_d (poolIndex - 1) (si - 1)) 1 (healMap hs),
        monitors := monitors hs @ [(poolIndex - 1, si - 1)]\<rparr>"

definition healServer :: "string \<Rightarrow> go_int \<Rightarrow> Pool \<Rightarrow> Server \<Rightarrow> heal_state \<Rightarrow> heal_state" where
  "healServer endpoint poolIndex v vv hs =
     (if endpoint = Endpoint vv \<or> length (Servers v) = 1
      then fold (\<lambda>(si, x). healStartSet poolIndex si) (Sets vv) hs
      else hs)"

definition healPool :: "string \<Rightarrow> string \<times> Pool \<Rightarrow> heal_state \<Rightarrow> panic + heal_state" where
  "healPool endpoint iv hs =
     (case Atoi (fst iv) of
        None \<Rightarrow> Inl AtoiPanic
      | Some poolIndex \<Rightarrow>
          Inr (fold (\<lambda>(h, vv). healServer endpoint poolIndex (snd iv) vv) (Servers (snd iv)) hs))"

definition healStart :: "string \<Rightarrow> pools \<Rightarrow> panic + heal_state" where
  "healStart endpoint ps = foldE (healPool endpoint) ps \<lparr>healMap = [], monitors = []\<rparr>"



section \<open>Predicates on the scheduler state\<close>

text \<open>Round \<open>i\<close> has an entry under the array index \<open>pid\<close> and the key \<open>e\<close>.\<close>

definition slotHas :: "sched_state \<Rightarrow> nat \<Rightarrow> nat \<Rightarrow> string \<Rightarrow> bool" where
  "slotHas st i pid e = (case rebootRounds st i pid of None \<Rightarrow> False | Some m \<Rightarrow> map_of m e \<noteq> None)"

text \<open>The array index of a pool key, when \<open>Atoi\<close> reads it and it lies within the array.\<close>

definition poolSlot :: "string \<Rightarrow> nat option" where
  "poolSlot pk = (case Atoi pk of
       None \<Rightarrow> None
     | Some w \<Rightarrow> if 0 \<le> sint w \<and> sint w < int roundsLen then Some (nat (sint w)) else None)"

definition inAnyRound :: "sched_state \<Rightarrow> string \<Rightarrow> string \<Rightarrow> bool" where
  "inAnyRound st pk h = (\<exists>i pid. poolSlot pk = Some pid \<and> slotHas st i pid h)"

text \<open>In every map of \<open>rebootRounds\<close> the keys are distinct and no two Servers share a set id.\<close>

definition slots_ok :: "sched_state \<Rightarrow> bool" where
  "slots_ok st = (\<forall>i pid m. rebootRounds st i pid = Some m \<longrightarrow>
      distinct (map fst m) \<and>
      (\<forall>x\<in>set m. \<forall>y\<in>set m. fst x \<noteq> fst y \<longrightarrow> setIds (snd x) \<inter> setIds (snd y) = {}))"

text \<open>What getInfra guarantees of the pools it returns: distinct keys, pool keys written by
  \<open>Itoa\<close>, every Server stored under its own endpoint and not yet processed.\<close>

definition wf_pools :: "pools \<Rightarrow> bool" where
  "wf_pools ps = (distinct (map fst ps) \<and>
     (\<forall>pk v. map_of ps pk = Some v \<longrightarrow> distinct (map fst (Servers v)) \<and> (\<exists>w. pk = Itoa w)) \<and>
     (\<forall>pk h s. serverAt ps pk h = Some s \<longrightarrow> Endpoint s = h \<and> \<not> Processed s))"

definition processedSet :: "pools \<Rightarrow> (string \<times> string) set" where
  "processedSet ps = {(pk, h). \<exists>s. serverAt ps pk h = Some s \<and> Processed s}"

definition serverSet :: "pools \<Rightarrow> (string \<times> string) set" where
  "serverSet ps = {(pk, h). serverAt ps pk h \<noteq> None}"

text \<open>The state of the scheduler against the pools \<open>ps\<close> it started from.\<close>

definition sched_inv :: "pools \<Rightarrow> sched_state \<Rightarrow> bool" where
  "sched_inv ps st = (
     map fst (ss_pools st) = map fst ps \<and>
     (\<forall>pk. map_option (\<lambda>v. map fst (Servers v)) (map_of (ss_pools st) pk) =
           map_option (\<lambda>v. map fst (Servers v)) (map_of ps pk)) \<and>
     (\<forall>pk h. serverAt (ss_pools st) pk h =
           map_option (\<lambda>s0. s0\<lparr>Processed := inAnyRound st pk h\<rparr>) (serverAt ps pk h)) \<and>
     (\<forall>i pid e s. inRound st i pid e s \<longrightarrow>
           (\<exists>pk. poolSlot pk = Some pid \<and> serverAt (ss_pools st) pk e = Some s) \<and> areAllSetsOK s) \<and>
     (\<forall>i j pid e. slotHas st i pid e \<longrightarrow> slotHas st j pid e \<longrightarrow> i = j) \<and>
     (\<forall>e s. map_of (unhealthy st) e = Some s \<longrightarrow>
           (\<exists>pk. serverAt (ss_pools st) pk e = Some s) \<and> \<not> areAllSetsOK s) \<and>
     processed st = of_nat (card (processedSet (ss_pools st))))"


text \<open>The Servers of a pool of \<open>ps\<close> that can be rebooted and are in no round yet; and a
  state in which the maps of the rounds from \<open>i\<close> on are all still \<open>nil\<close>.\<close>

definition pending :: "pools \<Rightarrow> sched_state \<Rightarrow> string \<Rightarrow> string set" where
  "pending ps st pk = {h. \<exists>s0. serverAt ps pk h = Some s0 \<and> areAllSetsOK s0 \<and> \<not> inAnyRound st pk h}"

definition freshFrom :: "nat \<Rightarrow> sched_state \<Rightarrow> bool" where
  "freshFrom i st = (\<forall>j p. i \<le> j \<longrightarrow> rebootRounds st j p = None)"

text \<open>The final scheduler state for a storage info whose endpoints \<open>slashParser\<close> reads,
  and the report.\<close>

definition schedOf :: "StorageInfo \<Rightarrow> sched_state" where
  "schedOf info = (case makeHostfile slashParser info of
      Inr (st, rep) \<Rightarrow> st | Inl e \<Rightarrow> sched_init [])"

definition reportOf :: "StorageInfo \<Rightarrow> (go_int \<times> go_int) option" where
  "reportOf info = (case makeHostfile slashParser info of
      Inr (st, rep) \<Rightarrow> rep | Inl e \<Rightarrow> None)"

text \<open>The state after the first \<open>n\<close> rounds of the loop, and whether the loop has run
  them without taking the early exit and would not take it at the next round either.\<close>

definition roundsOf :: "nat \<Rightarrow> StorageInfo \<Rightarrow> sched_state" where
  "roundsOf n info = (case getInfra slashParser info of
      Inl e \<Rightarrow> sched_init []
    | Inr (ps, tot) \<Rightarrow>
        (case roundLoop n 0 (stringKeysSorted ps) tot (sched_init ps) of
           Inl e \<Rightarrow> sched_init []
         | Inr (st, rep) \<Rightarrow> st))"

definition ranRounds :: "nat \<Rightarrow> StorageInfo \<Rightarrow> bool" where
  "ranRounds n info = (case getInfra slashParser info of
      Inl e \<Rightarrow> False
    | Inr (ps, tot) \<Rightarrow>
        (case roundLoop n 0 (stringKeysSorted ps) tot (sched_init ps) of
           Inl e \<Rightarrow> False
         | Inr (st, rep) \<Rightarrow> rep = None \<and> \<not> tot \<le>s processed st))"

text \<open>A state in which a further round changes nothing: every Server is processed, or
  has a Set that cannot be rebooted and is in \<open>unhealthy\<close> as it is.\<close>

definition settled :: "sched_state \<Rightarrow> bool" where
  "settled st = list_all (\<lambda>kv. list_all (\<lambda>hs. Processed (snd hs) \<or>
       (\<not> areAllSetsOK (snd hs) \<and> map_of (unhealthy st) (Endpoint (snd hs)) = Some (snd hs)))
     (Servers (snd kv))) (ss_pools st)"

text \<open>The entries of a round map, each Server reduced to its list of set ids.\<close>

definition roundSetIds :: "sched_state \<Rightarrow> nat \<Rightarrow> nat \<Rightarrow> (string \<times> go_int list) list" where
  "roundSetIds st i pid = (case rebootRounds st i pid of
      None \<Rightarrow> [] | Some m \<Rightarrow> map (\<lambda>(e, s). (e, map fst (Sets s))) m)"

text \<open>One pool of four servers: \<open>a\<close> and \<open>b\<close> hold set 1, \<open>c\<close> and \<open>d\<close> hold set 2.\<close>

definition infoStriped :: StorageInfo where
  "infoStriped = \<lparr>iDisks = [mkDisk 0 0 ''a/d1'' ''ok'', mkDisk 0 0 ''b/d1'' ''ok'',
                         mkDisk 0 1 ''c/d1'' ''ok'', mkDisk 0 1 ''d/d1'' ''ok''],
                  Backend = \<lparr>StandardSCParity = 2, bRRSCParity = 1\<rparr>\<rparr>"

text \<open>Two pools, each with one set on two hosts: the hosts \<open>a\<close> and \<open>b\<close> in the first
  pool, the hosts \<open>b\<close> and \<open>c\<close> in the second. The host \<open>b\<close> has a disk in each pool.\<close>

definition infoSpan :: StorageInfo where
  "infoSpan = \<lparr>iDisks = [mkDisk 0 0 ''a/d1'' ''ok'', mkDisk 0 0 ''b/d1'' ''ok'',
                      mkDisk 1 0 ''b/d2'' ''ok'', mkDisk 1 0 ''c/d1'' ''ok''],
               Backend = \<lparr>StandardSCParity = 2, bRRSCParity = 1\<rparr>\<rparr>"

text \<open>One pool of four servers, parity 2: \<open>a\<close> and \<open>b\<close> hold set 1, which has no bad
  disk; \<open>c\<close> and \<open>d\<close> hold set 2, which has one.\<close>

definition infoMixed :: StorageInfo where
  "infoMixed = \<lparr>iDisks = [mkDisk 0 0 ''a/d1'' ''ok'', mkDisk 0 0 ''b/d1'' ''ok'',
                       mkDisk 0 1 ''c/d1'' ''offline'', mkDisk 0 1 ''d/d1'' ''ok''],
                Backend = \<lparr>StandardSCParity = 2, bRRSCParity = 1\<rparr>\<rparr>"

text \<open>The two pools of \<open>infoSpan\<close>, with the disk of \<open>b\<close> in the second pool offline.\<close>

definition infoSpanBad :: StorageInfo where
  "infoSpanBad = \<lparr>iDisks = [mkDisk 0 0 ''a/d1'' ''ok'', mkDisk 0 0 ''b/d1'' ''ok'',
                         mkDisk 1 0 ''b/d2'' ''offline'', mkDisk 1 0 ''c/d1'' ''ok''],
                  Backend = \<lparr>StandardSCParity = 2, bRRSCParity = 1\<rparr>\<rparr>"

text \<open>One pool of four servers that all hold set 1, without a bad disk.\<close>

definition infoABCD :: StorageInfo where
  "infoABCD = \<lparr>iDisks = [mkDisk 0 0 ''A/d1'' ''ok'', mkDisk 0 0 ''B/d1'' ''ok'',
                      mkDisk 0 0 ''C/d1'' ''ok'', mkDisk 0 0 ''D/d1'' ''ok''],
               Backend = \<lparr>StandardSCParity = 2, bRRSCParity = 1\<rparr>\<rparr>"

text \<open>One pool with one server, whose only set has parity 2 and one bad disk.\<close>

definition infoSoleBad :: StorageInfo where
  "infoSoleBad = \<lparr>iDisks = [mkDisk 0 0 ''a/d1'' ''offline'', mkDisk 0 0 ''a/d2'' ''ok''],
                  Backend = \<lparr>StandardSCParity = 2, bRRSCParity = 1\<rparr>\<rparr>"

text \<open>One pool with one server, whose only set has parity 2 and no bad disk.\<close>

definition infoSoleOk :: StorageInfo where
  "infoSoleOk = \<lparr>iDisks = [mkDisk 0 0 ''a/d1'' ''ok'', mkDisk 0 0 ''a/d2'' ''ok''],
                  Backend = \<lparr>StandardSCParity = 2, bRRSCParity = 1\<rparr>\<rparr>"


text \<open>A heal status item with three objects still missing after the heal.\<close>

definition item3 :: heal_item where
  "item3 = \<lparr>mb = 3, ma = 3, cb = 0, ca = 0, ofb = 0, ofa = 0\<rparr>"

text \<open>The monitors \<open>heal\<close> starts, in closed form.\<close>

definition serverMonitors :: "string \<Rightarrow> go_int \<Rightarrow> Pool \<Rightarrow> Server \<Rightarrow> (go_int \<times> go_int) list" where
  "serverMonitors endpoint poolIndex v vv =
     (if endpoint = Endpoint vv \<or> length (Servers v) = 1
      then map (\<lambda>six. (poolIndex - 1, fst six - 1)) (Sets vv) else [])"

definition poolMonitors :: "string \<Rightarrow> string \<times> Pool \<Rightarrow> (go_int \<times> go_int) list" where
  "poolMonitors endpoint iv =
     concat (map (\<lambda>hvv. serverMonitors endpoint (the (Atoi (fst iv))) (snd iv) (snd hvv))
               (Servers (snd iv)))"


text \<open>The entries of the pools, as getInfra leaves them: what \<open>wf_pools\<close> says, and the
  distinct set ids of every Server, stated on the entries of the lists.\<close>

definition goodServer :: "string \<times> Server \<Rightarrow> bool" where
  "goodServer hvv = (Endpoint (snd hvv) = fst hvv \<and> distinct (map fst (Sets (snd hvv))))"

definition goodPool :: "string \<times> Pool \<Rightarrow> bool" where
  "goodPool iv = ((\<exists>w. fst iv = Itoa w) \<and> distinct (map fst (Servers (snd iv))) \<and>
      (\<forall>hvv\<in>set (Servers (snd iv)). goodServer hvv))"


section \<open>The same topology under another iteration order\<close>

text \<open>
  Two association lists are the same Go map when their keys are distinct and every key has
  related values in both; the order of the entries, which is the order \<open>range\<close> visits
  them in, is free. Two topologies are the same when they are the same maps at every level.
\<close>

definition sameMap :: "('v \<Rightarrow> 'v \<Rightarrow> bool) \<Rightarrow> ('k \<times> 'v) list \<Rightarrow> ('k \<times> 'v) list \<Rightarrow> bool" where
  "sameMap R A B = (distinct (map fst A) \<and> distinct (map fst B) \<and>
      (\<forall>k. rel_option R (map_of A k) (map_of B k)))"







section \<open>Facts about the strconv functions\<close>

declare natstr.simps [simp del]

lemma is_digit_digit_char: "d < 10 \<Longrightarrow> is_digit (digit_char d)"
  by (simp add: is_digit_def digit_char_def)

lemma digit_val_digit_char: "d < 10 \<Longrightarrow> digit_val (digit_char d) = d"
  by (simp add: digit_val_def digit_char_def)

lemma natstr_nonempty: "natstr n \<noteq> []"
  by (subst natstr.simps) simp

lemma natstr_digits: "list_all is_digit (natstr n)"
proof (induction n rule: natstr.induct)
  case (1 n)
  show ?case
  proof (cases "n < 10")
    case True
    then show ?thesis by (subst natstr.simps) (simp add: is_digit_digit_char)
  next
    case False
    with 1 show ?thesis by (subst natstr.simps) (simp add: is_digit_digit_char)
  qed
qed

lemma strnat_snoc: "strnat (ds @ [c]) = strnat ds * 10 + digit_val c"
  by (simp add: strnat_def)

lemma strnat_natstr: "strnat (natstr n) = n"
proof (induction n rule: natstr.induct)
  case (1 n)
  show ?case
  proof (cases "n < 10")
    case True
    then show ?thesis by (subst natstr.simps) (simp add: strnat_def digit_val_digit_char)
  next
    case False
    with 1 show ?thesis by (subst natstr.simps) (simp add: strnat_snoc digit_val_digit_char)
  qed
qed

lemma hd_natstr_digit: "is_digit (hd (natstr n))"
  using natstr_digits [of n] natstr_nonempty [of n] by (cases "natstr n") simp_all

lemma is_digit_not_sign: "is_digit c \<Longrightarrow> c \<noteq> CHR ''-'' \<and> c \<noteq> CHR ''+''"
  by (auto simp: is_digit_def)

text \<open>\<open>Atoi\<close> reads back what \<open>Itoa\<close> wrote, so \<open>Itoa\<close> is injective.\<close>

lemma Atoi_Itoa: "Atoi (Itoa w) = Some w"
proof (cases "sint w < 0")
  case True
  have b: "- (2 ^ 63) \<le> sint w" using sint_ge [of w] by simp
  have "Atoi (CHR ''-'' # natstr (nat (- sint w))) = Some (word_of_int (- int (nat (- sint w))))"
    using True b by (simp add: Atoi_def Let_def natstr_nonempty natstr_digits strnat_natstr)
  with True show ?thesis by (simp add: Itoa_def)
next
  case False
  have b: "sint w < 2 ^ 63" using sint_lt [of w] by simp
  let ?s = "natstr (nat (sint w))"
  have h: "hd ?s \<noteq> CHR ''-'' \<and> hd ?s \<noteq> CHR ''+''"
    using hd_natstr_digit is_digit_not_sign by blast
  have "Atoi ?s = Some (word_of_int (int (nat (sint w))))"
    using False b h by (simp add: Atoi_def Let_def natstr_nonempty natstr_digits strnat_natstr)
  with False show ?thesis by (simp add: Itoa_def)
qed

lemma Itoa_inj: "Itoa a = Itoa b \<longleftrightarrow> a = b"
  by (metis Atoi_Itoa option.inject)

section \<open>What the first loop of getInfra builds\<close>

lemma foldE_snoc:
  "foldE f (xs @ [x]) s = (case foldE f xs s of Inl e \<Rightarrow> Inl e | Inr s' \<Rightarrow> f x s')"
  by (induction xs arbitrary: s) (auto split: sum.splits)

lemma foldE_append:
  "foldE f (xs @ ys) s = (case foldE f xs s of Inl e \<Rightarrow> Inl e | Inr s' \<Rightarrow> foldE f ys s')"
  by (induction xs arbitrary: s) (auto split: sum.splits)

lemma addDisks_snoc:
  "addDisks parse b (ds @ [d]) st =
    (case addDisks parse b ds st of Inl e \<Rightarrow> Inl e | Inr st' \<Rightarrow> addDisk parse b d st')"
  by (simp add: addDisks_def foldE_snoc)

lemma addDisk_parse:
  "addDisk parse b d st = Inr st' \<Longrightarrow> \<exists>host upath. parse (mEndpoint d) = Some (host, upath)"
  by (cases "parse (mEndpoint d)") (auto simp: addDisk_def Let_def)

lemma addDisk_pools:
  assumes "addDisk parse b d st = Inr st'" "parse (mEndpoint d) = Some (host, upath)"
  shows "st_pools st' = AList.update (Itoa (mPoolIndex d + 1))
     ((oldPool st d)\<lparr>Servers := AList.update host
        ((oldServer st d host)\<lparr>Sets := AList.update (mSetIndex d + 1)
           ((oldSet b st d host)\<lparr>Disks := AList.update (mEndpoint d) (newDisk upath d)
               (Disks (oldSet b st d host))\<rparr>)
           (Sets (oldServer st d host))\<rparr>)
        (Servers (oldPool st d))\<rparr>)
     (st_pools st)"
proof -
  have "st_pools st' = AList.update (Itoa (mPoolIndex d + 1))
     ((oldPool st d)\<lparr>Servers := AList.update host
        ((oldServer st d host)\<lparr>Sets := AList.update (mSetIndex d + 1)
           ((oldSet b st d host)\<lparr>Disks := AList.update (mEndpoint d) (newDisk upath d)
               (Disks (oldSet b st d host))\<rparr>)
           (Sets (oldServer st d host))\<rparr>)
        (Servers (oldPool st d))\<rparr>)
     (st_pools st)"
    using assms
    unfolding addDisk_def oldPool_def [symmetric] Let_def
    by (cases "map_of (Servers (oldPool st d)) host")
       (auto simp: oldServer_def oldSet_def)
  then show ?thesis .
qed

lemma addDisk_setInfo_lookup:
  assumes "addDisk parse b d st = Inr st'"
  shows "lookup2 (st_setInfo st') pk k =
    (if pk = Itoa (mPoolIndex d + 1) \<and> k = Itoa (mSetIndex d + 1)
     then Some ((oldSetInfo b st d)\<lparr>BadDisks := BadDisks (oldSetInfo b st d) + (if mState d \<noteq> ''ok'' then 1 else 0)\<rparr>)
     else lookup2 (st_setInfo st) pk k)"
proof -
  obtain host upath where p: "parse (mEndpoint d) = Some (host, upath)"
    using addDisk_parse [OF assms] by blast
  show ?thesis
  proof (cases "map_of (st_setInfo st) (Itoa (mPoolIndex d + 1))")
    case None
    with assms p show ?thesis
      by (cases "map_of (Servers (oldPool st d)) host")
         (auto simp: addDisk_def oldPool_def Let_def lookup2_def update_conv' oldSetInfo_def)
  next
    case (Some m)
    with assms p show ?thesis
      by (cases "map_of (Servers (oldPool st d)) host"; cases "map_of m (Itoa (mSetIndex d + 1))")
         (auto simp: addDisk_def oldPool_def Let_def lookup2_def update_conv' oldSetInfo_def)
  qed
qed

lemma addDisk_total:
  assumes "addDisk parse b d st = Inr st'" "parse (mEndpoint d) = Some (host, upath)"
  shows "st_totalServers st' =
    (if serverAt (st_pools st) (Itoa (mPoolIndex d + 1)) host = None
     then st_totalServers st + 1 else st_totalServers st)"
  using assms
  by (cases "map_of (st_pools st) (Itoa (mPoolIndex d + 1))";
      cases "map_of (Servers (oldPool st d)) host")
     (auto simp: addDisk_def oldPool_def Let_def serverAt_def)

lemma oldServer_serverAt:
  "oldServer st d host = (case serverAt (st_pools st) (Itoa (mPoolIndex d + 1)) host of
      None \<Rightarrow> newServer host | Some s \<Rightarrow> s)"
  by (auto simp: oldServer_def oldPool_def serverAt_def split: option.splits)

lemma oldSet_view:
  "oldSet b st d host = (case view (st_pools st) (Itoa (mPoolIndex d + 1)) host (mSetIndex d + 1) of
      None \<Rightarrow> newSet b d | Some x \<Rightarrow> x)"
  by (auto simp: oldSet_def oldServer_def oldPool_def view_def newServer_def split: option.splits)

lemma addDisk_serverAt:
  assumes "addDisk parse b d st = Inr st'" "parse (mEndpoint d) = Some (host, upath)"
  shows "serverAt (st_pools st') pk h =
    (if pk = Itoa (mPoolIndex d + 1) \<and> h = host
     then Some ((oldServer st d host)\<lparr>Sets := AList.update (mSetIndex d + 1)
           ((oldSet b st d host)\<lparr>Disks := AList.update (mEndpoint d) (newDisk upath d)
               (Disks (oldSet b st d host))\<rparr>)
           (Sets (oldServer st d host))\<rparr>)
     else serverAt (st_pools st) pk h)"
  unfolding addDisk_pools [OF assms]
  by (auto simp: serverAt_def update_conv' oldPool_def split: option.splits)

lemma addDisk_view:
  assumes "addDisk parse b d st = Inr st'" "parse (mEndpoint d) = Some (host, upath)"
  shows "view (st_pools st') pk h sid =
    (if pk = Itoa (mPoolIndex d + 1) \<and> h = host \<and> sid = mSetIndex d + 1
     then Some ((oldSet b st d host)\<lparr>Disks := AList.update (mEndpoint d) (newDisk upath d)
               (Disks (oldSet b st d host))\<rparr>)
     else view (st_pools st) pk h sid)"
proof -
  have v: "view ps pk h sid = (case serverAt ps pk h of None \<Rightarrow> None | Some s \<Rightarrow> map_of (Sets s) sid)"
    for ps by (simp add: view_def serverAt_def split: option.splits)
  show ?thesis
    unfolding v addDisk_serverAt [OF assms]
    by (auto simp: update_conv' oldServer_serverAt newServer_def split: option.splits)
qed

lemma addDisks_induct [consumes 1, case_names init step]:
  assumes "addDisks parse b ds init_state = Inr st"
    and "P [] init_state"
    and "\<And>ds d st st'. addDisks parse b ds init_state = Inr st \<Longrightarrow> P ds st \<Longrightarrow>
           addDisk parse b d st = Inr st' \<Longrightarrow> P (ds @ [d]) st'"
  shows "P ds st"
  using assms(1)
proof (induction ds arbitrary: st rule: rev_induct)
  case Nil
  then show ?case using assms(2) by (simp add: addDisks_def)
next
  case (snoc d ds)
  then obtain st0 where a: "addDisks parse b ds init_state = Inr st0" and
    b: "addDisk parse b d st0 = Inr st"
    by (auto simp: addDisks_snoc split: sum.splits)
  from snoc.IH [OF a] have "P ds st0" .
  from assms(3) [OF a this b] show ?case .
qed

lemma badCount_snoc:
  "badCount pk k (ds @ [d]) = badCount pk k ds +
     (if Itoa (mPoolIndex d + 1) = pk \<and> Itoa (mSetIndex d + 1) = k \<and> mState d \<noteq> ''ok'' then 1 else 0)"
  by (simp add: badCount_def)

lemma badCount_absent:
  "\<forall>d\<in>set ds. \<not> (Itoa (mPoolIndex d + 1) = pk \<and> Itoa (mSetIndex d + 1) = k) \<Longrightarrow> badCount pk k ds = 0"
  by (auto simp: badCount_def filter_empty_conv)

lemma setInfo_inv:
  assumes "addDisks parse b ds init_state = Inr st"
  shows "(lookup2 (st_setInfo st) pk k = None \<longrightarrow>
            (\<forall>d\<in>set ds. \<not> (Itoa (mPoolIndex d + 1) = pk \<and> Itoa (mSetIndex d + 1) = k))) \<and>
         (\<forall>seti. lookup2 (st_setInfo st) pk k = Some seti \<longrightarrow>
            SCParity seti = StandardSCParity b \<and> BadDisks seti = of_nat (badCount pk k ds))"
  using assms
proof (induction arbitrary: pk k rule: addDisks_induct)
  case init
  then show ?case by (simp add: init_state_def lookup2_def)
next
  case (step ds d st st')
  note l = addDisk_setInfo_lookup [OF step.hyps(2), of pk k]
  show ?case
  proof (cases "pk = Itoa (mPoolIndex d + 1) \<and> k = Itoa (mSetIndex d + 1)")
    case True
    show ?thesis
    proof (cases "lookup2 (st_setInfo st) pk k")
      case None
      with step.IH [of pk k] have "badCount pk k ds = 0"
        by (simp add: badCount_absent)
      with True None l show ?thesis
        by (simp add: oldSetInfo_def newSetInfo_def badCount_snoc)
    next
      case (Some x)
      with True l step.IH [of pk k] show ?thesis
        by (simp add: oldSetInfo_def badCount_snoc)
    qed
  next
    case False
    with l step.IH [of pk k] show ?thesis
      by (auto simp: badCount_snoc)
  qed
qed

lemma view_inv:
  assumes "addDisks parse b ds init_state = Inr st"
  shows "(view (st_pools st) pk h sid = None \<longrightarrow> (\<forall>d\<in>set ds. \<not> inView parse pk h sid d)) \<and>
         (\<forall>v. view (st_pools st) pk h sid = Some v \<longrightarrow>
            ID v = sid \<and> Itoa (Pool v) = pk \<and> SCParity v = StandardSCParity b \<and>
            (\<exists>d\<in>set ds. inView parse pk h sid d) \<and>
            distinct (map fst (Disks v)) \<and>
            (\<forall>e. map_of (Disks v) e = map_option (diskOf parse)
                (find (\<lambda>d. inView parse pk h sid d \<and> mEndpoint d = e) (rev ds))))"
  using assms
proof (induction arbitrary: pk h sid rule: addDisks_induct)
  case init
  then show ?case by (simp add: init_state_def view_def)
next
  case (step ds d st st')
  obtain host upath where p: "parse (mEndpoint d) = Some (host, upath)"
    using addDisk_parse [OF step.hyps(2)] by blast
  note l = addDisk_view [OF step.hyps(2) p, of pk h sid]
  have iv: "inView parse pk h sid d \<longleftrightarrow>
      pk = Itoa (mPoolIndex d + 1) \<and> h = host \<and> sid = mSetIndex d + 1"
    using p by (auto simp: inView_def urlHost_def)
  have dk: "diskOf parse d = newDisk upath d"
    using p by (simp add: diskOf_def)
  show ?case
  proof (cases "inView parse pk h sid d")
    case True
    note T = True [unfolded iv]
    have e1: "mSetIndex d + 1 = sid" and e2: "Itoa (mPoolIndex d + 1) = pk"
      using T by simp_all
    have ov: "oldSet b st d host = (case view (st_pools st) pk h sid of None \<Rightarrow> newSet b d | Some x \<Rightarrow> x)"
      using T by (simp add: oldSet_view)
    have fs: "find (\<lambda>x. inView parse pk h sid x \<and> mEndpoint x = e) (rev (ds @ [d])) =
       (if mEndpoint d = e then Some d
        else find (\<lambda>x. inView parse pk h sid x \<and> mEndpoint x = e) (rev ds))" for e
      using True by simp
    have ex: "\<exists>x\<in>set (ds @ [d]). inView parse pk h sid x"
      using True by auto
    show ?thesis
    proof (cases "view (st_pools st) pk h sid")
      case None
      with step.IH [of pk h sid] have no: "\<forall>x\<in>set ds. \<not> inView parse pk h sid x" by simp
      then have f: "find (\<lambda>x. inView parse pk h sid x \<and> mEndpoint x = e) (rev ds) = None" for e
        by (auto simp: find_None_iff)
      have vs: "view (st_pools st') pk h sid =
          Some ((newSet b d)\<lparr>Disks := [(mEndpoint d, newDisk upath d)]\<rparr>)"
        using None T l ov by (simp add: newSet_def)
      show ?thesis
        unfolding vs fs using ex
        by (simp add: newSet_def e1 e2 f dk)
    next
      case (Some x)
      with step.IH [of pk h sid] have ih: "ID x = sid" "Itoa (Pool x) = pk"
        "SCParity x = StandardSCParity b" "distinct (map fst (Disks x))"
        "\<And>e. map_of (Disks x) e = map_option (diskOf parse)
                (find (\<lambda>d. inView parse pk h sid d \<and> mEndpoint d = e) (rev ds))"
        by simp_all
      have vs: "view (st_pools st') pk h sid =
          Some (x\<lparr>Disks := AList.update (mEndpoint d) (newDisk upath d) (Disks x)\<rparr>)"
        using Some T l ov by simp
      show ?thesis
        unfolding vs fs using ex ih
        by (simp add: update_conv' dk distinct_update)
    qed
  next
    case False
    with l step.IH [of pk h sid] iv show ?thesis
      by auto
  qed
qed

lemma server_inv:
  assumes "addDisks parse b ds init_state = Inr st"
  shows "\<forall>s. serverAt (st_pools st) pk h = Some s \<longrightarrow>
            Endpoint s = h \<and> \<not> Processed s \<and> \<not> Rebooted s \<and> distinct (map fst (Sets s))"
  using assms
proof (induction arbitrary: pk h rule: addDisks_induct)
  case init
  then show ?case by (simp add: init_state_def serverAt_def)
next
  case (step ds d st st')
  obtain host upath where p: "parse (mEndpoint d) = Some (host, upath)"
    using addDisk_parse [OF step.hyps(2)] by blast
  note l = addDisk_serverAt [OF step.hyps(2) p, of pk h]
  show ?case
  proof (cases "pk = Itoa (mPoolIndex d + 1) \<and> h = host")
    case True
    with l step.IH [of pk h] show ?thesis
      by (cases "serverAt (st_pools st) pk h")
         (auto simp: oldServer_serverAt newServer_def distinct_update)
  next
    case False
    with l step.IH [of pk h] show ?thesis by auto
  qed
qed

lemma sum_list_update_new:
  "map_of al k = None \<Longrightarrow> sum_list (map (\<lambda>kp. f (snd kp)) (AList.update k v al)) =
     sum_list (map (\<lambda>kp. f (snd kp)) al) + (f v :: nat)"
  by (induction al) (auto split: if_splits)

lemma sum_list_update_old:
  "map_of al k = Some u \<Longrightarrow> distinct (map fst al) \<Longrightarrow>
     sum_list (map (\<lambda>kp. f (snd kp)) (AList.update k v al)) + f u =
     sum_list (map (\<lambda>kp. f (snd kp)) al) + (f v :: nat)"
proof (induction al)
  case Nil
  then show ?case by simp
next
  case (Cons a al)
  show ?case
  proof (cases "fst a = k")
    case True
    with Cons.prems have "snd a = u" by (cases a) simp
    moreover have "AList.update k v (a # al) = (k, v) # al"
      using True by (cases a) simp
    ultimately show ?thesis by simp
  next
    case False
    with Cons show ?thesis by (cases a) auto
  qed
qed

lemma length_update_alist:
  "length (AList.update k v al) = (if map_of al k = None then Suc (length al) else length al)"
  by (induction al) auto

lemma pools_inv:
  assumes "addDisks parse b ds init_state = Inr st"
  shows "distinct (map fst (st_pools st)) \<and>
         (\<forall>pk p. map_of (st_pools st) pk = Some p \<longrightarrow>
            distinct (map fst (Servers p)) \<and> (\<exists>w. pk = Itoa w)) \<and>
         st_totalServers st = of_nat (countServers (st_pools st)) \<and>
         countServers (st_pools st) \<le> length ds"
  using assms
proof (induction rule: addDisks_induct)
  case init
  then show ?case by (simp add: init_state_def countServers_def)
next
  case (step ds d st st')
  obtain host upath where p: "parse (mEndpoint d) = Some (host, upath)"
    using addDisk_parse [OF step.hyps(2)] by blast
  let ?PI = "Itoa (mPoolIndex d + 1)"
  let ?srv = "(oldServer st d host)\<lparr>Sets := AList.update (mSetIndex d + 1)
           ((oldSet b st d host)\<lparr>Disks := AList.update (mEndpoint d) (newDisk upath d)
               (Disks (oldSet b st d host))\<rparr>)
           (Sets (oldServer st d host))\<rparr>"
  let ?pool = "(oldPool st d)\<lparr>Servers := AList.update host ?srv (Servers (oldPool st d))\<rparr>"
  have ps: "st_pools st' = AList.update ?PI ?pool (st_pools st)"
    by (rule addDisk_pools [OF step.hyps(2) p])
  have tot: "st_totalServers st' =
    (if serverAt (st_pools st) ?PI host = None
     then st_totalServers st + 1 else st_totalServers st)"
    by (rule addDisk_total [OF step.hyps(2) p])
  from step.IH have d0: "distinct (map fst (st_pools st))"
    and d1: "\<And>pk p. map_of (st_pools st) pk = Some p \<Longrightarrow>
            distinct (map fst (Servers p)) \<and> (\<exists>w. pk = Itoa w)"
    and t0: "st_totalServers st = of_nat (countServers (st_pools st))"
    and c0: "countServers (st_pools st) \<le> length ds" by auto
  have dop: "distinct (map fst (Servers (oldPool st d)))"
    using d1 [of ?PI] by (auto simp: oldPool_def split: option.splits)
  have A: "distinct (map fst (st_pools st'))"
    unfolding ps using d0 by (rule distinct_update)
  have B: "\<forall>pk p. map_of (st_pools st') pk = Some p \<longrightarrow>
            distinct (map fst (Servers p)) \<and> (\<exists>w. pk = Itoa w)"
    unfolding ps using d1 dop by (auto simp: update_conv' distinct_update)
  have lenp: "length (Servers ?pool) =
     (if serverAt (st_pools st) ?PI host = None then Suc (length (Servers (oldPool st d)))
      else length (Servers (oldPool st d)))"
    by (auto simp: length_update_alist serverAt_def oldPool_def split: option.splits)
  have C: "countServers (st_pools st') =
     (if serverAt (st_pools st) ?PI host = None then Suc (countServers (st_pools st))
      else countServers (st_pools st))"
  proof (cases "map_of (st_pools st) ?PI")
    case None
    then have "oldPool st d = \<lparr>Servers = []\<rparr>" by (simp add: oldPool_def)
    with None show ?thesis
      unfolding ps countServers_def
      by (simp add: sum_list_update_new [where f = "\<lambda>p. length (Servers p)"] serverAt_def)
  next
    case (Some u)
    then have ou: "oldPool st d = u" by (simp add: oldPool_def)
    from sum_list_update_old [OF Some d0, where f = "\<lambda>p. length (Servers p)" and v = ?pool]
    have "countServers (st_pools st') + length (Servers u) =
        countServers (st_pools st) + length (Servers ?pool)"
      unfolding ps countServers_def .
    with lenp ou show ?thesis by (auto split: if_splits)
  qed
  from A B C tot t0 c0 show ?case by auto
qed

section \<open>What getInfra returns\<close>

lemma map_of_keyed_map:
  "map_of (map (\<lambda>(k, v). (k, f k v)) al) k = map_option (f k) (map_of al k)"
  by (induction al) auto

lemma map_fst_keyed_map: "map fst (map (\<lambda>(k, v). (k, f k v)) al) = map fst al"
  by (induction al) auto

lemma serverAt_finishPools:
  "serverAt (finishPools si ps) pk h = map_option (finishServer si pk) (serverAt ps pk h)"
  by (cases "map_of ps pk")
     (simp_all add: serverAt_def finishPools_def finishPool_def map_of_keyed_map)

lemma view_finishPools:
  "view (finishPools si ps) pk h sid = map_option (finishSet si pk sid) (view ps pk h sid)"
proof -
  have v: "view ps pk h sid = (case serverAt ps pk h of None \<Rightarrow> None | Some s \<Rightarrow> map_of (Sets s) sid)"
    for ps by (simp add: view_def serverAt_def split: option.splits)
  show ?thesis
    unfolding v serverAt_finishPools
    by (cases "serverAt ps pk h") (simp_all add: finishServer_def map_of_keyed_map)
qed

lemma getInfra_Inr:
  assumes "getInfra parse info = Inr (ps, nsrv)"
  obtains st where "addDisks parse (Backend info) (iDisks info) init_state = Inr st"
    and "ps = finishPools (st_setInfo st) (st_pools st)" and "nsrv = st_totalServers st"
  using assms by (auto simp: getInfra_def split: sum.splits)

lemma badCount_badDisksOf: "badCount (Itoa p) (Itoa s) ds = badDisksOf p s ds"
  by (simp add: badCount_def badDisksOf_def Itoa_inj)

text \<open>Every per-server view that getInfra returns.\<close>

lemma getInfra_view:
  assumes "getInfra parse info = Inr (ps, nsrv)" and "view ps pk h sid = Some v"
  shows "ID v = sid" "Itoa (Pool v) = pk" "SCParity v = StandardSCParity (Backend info)"
    "BadDisks v = of_nat (badDisksOf (Pool v) (ID v) (iDisks info))"
    "CanReboot v \<longleftrightarrow> \<not> (SCParity v - 1 \<le>s BadDisks v)"
    "distinct (map fst (Disks v))"
    "map_of (Disks v) e = map_option (diskOf parse)
        (find (\<lambda>d. inView parse pk h sid d \<and> mEndpoint d = e) (rev (iDisks info)))"
proof -
  from assms(1) obtain st where a: "addDisks parse (Backend info) (iDisks info) init_state = Inr st"
    and ps: "ps = finishPools (st_setInfo st) (st_pools st)"
    by (rule getInfra_Inr)
  from assms(2) obtain v0 where v0: "view (st_pools st) pk h sid = Some v0"
    and v: "v = finishSet (st_setInfo st) pk sid v0"
    by (auto simp: ps view_finishPools)
  from view_inv [OF a, of pk h sid] v0
  have i: "ID v0 = sid" "Itoa (Pool v0) = pk" "SCParity v0 = StandardSCParity (Backend info)"
    "\<exists>d\<in>set (iDisks info). inView parse pk h sid d" "distinct (map fst (Disks v0))"
    "map_of (Disks v0) e = map_option (diskOf parse)
        (find (\<lambda>d. inView parse pk h sid d \<and> mEndpoint d = e) (rev (iDisks info)))"
    by simp_all
  from i(4) have "\<not> (\<forall>d\<in>set (iDisks info). \<not> (Itoa (mPoolIndex d + 1) = pk \<and> Itoa (mSetIndex d + 1) = Itoa sid))"
    by (auto simp: inView_def)
  with setInfo_inv [OF a, of pk "Itoa sid"]
  obtain seti where s: "lookup2 (st_setInfo st) pk (Itoa sid) = Some seti"
    "SCParity seti = StandardSCParity (Backend info)"
    "BadDisks seti = of_nat (badCount pk (Itoa sid) (iDisks info))"
    by (cases "lookup2 (st_setInfo st) pk (Itoa sid)") auto
  have bc: "badCount pk (Itoa sid) (iDisks info) = badDisksOf (Pool v0) sid (iDisks info)"
    using i(2) badCount_badDisksOf [of "Pool v0" sid] by simp
  have fv: "v = v0\<lparr>CanReboot := (if SCParity seti - 1 \<le>s BadDisks seti then False else True),
             BadDisks := BadDisks seti\<rparr>"
    using v s(1) by (simp add: finishSet_def)
  show "ID v = sid" "Itoa (Pool v) = pk" "SCParity v = StandardSCParity (Backend info)"
    "distinct (map fst (Disks v))"
    "map_of (Disks v) e = map_option (diskOf parse)
        (find (\<lambda>d. inView parse pk h sid d \<and> mEndpoint d = e) (rev (iDisks info)))"
    using i by (simp_all add: fv)
  show "BadDisks v = of_nat (badDisksOf (Pool v) (ID v) (iDisks info))"
    using s(3) bc i(1) by (simp add: fv)
  show "CanReboot v \<longleftrightarrow> \<not> (SCParity v - 1 \<le>s BadDisks v)"
    using s(2) i(3) by (simp add: fv)
qed

lemma sint_of_nat_small: "n < 2 ^ 63 \<Longrightarrow> sint (of_nat n :: go_int) = int n"
  by (simp add: signed_of_nat signed_take_bit_int_eq_self)


section \<open>The loops of makeHostfile\<close>



lemma haveMatchingSets_loop_iff:
  "haveMatchingSets_loop xs s2 \<longleftrightarrow> fst ` set xs \<inter> setIds s2 \<noteq> {}"
  by (induction xs s2 rule: haveMatchingSets_loop.induct)
     (auto simp: setIds_def map_of_eq_None_iff)

lemma haveMatchingSets_iff: "haveMatchingSets s1 s2 \<longleftrightarrow> setIds s1 \<inter> setIds s2 \<noteq> {}"
  by (simp add: haveMatchingSets_def haveMatchingSets_loop_iff setIds_def)

lemma conflictsWith_iff:
  "conflictsWith m s \<longleftrightarrow> (\<exists>x\<in>set m. setIds (snd x) \<inter> setIds s \<noteq> {})"
  by (induction m s rule: conflictsWith.induct) (auto simp: haveMatchingSets_iff)

lemma scheduleServer_cases [consumes 1, case_names skip unhealthy wait place]:
  assumes "scheduleServer i pid pkey skey st = Inr st'"
  obtains
    (skip) v s where "map_of (ss_pools st) pkey = Some v" "map_of (Servers v) skey = Some s"
      "Processed s" "st' = st"
  | (unhealthy) v s where "map_of (ss_pools st) pkey = Some v" "map_of (Servers v) skey = Some s"
      "\<not> Processed s" "\<not> areAllSetsOK s"
      "st' = st\<lparr>unhealthy := AList.update (Endpoint s) s (unhealthy st)\<rparr>"
  | (wait) v s where "map_of (ss_pools st) pkey = Some v" "map_of (Servers v) skey = Some s"
      "\<not> Processed s" "areAllSetsOK s" "st' = st"
  | (place) v s round where "map_of (ss_pools st) pkey = Some v" "map_of (Servers v) skey = Some s"
      "\<not> Processed s" "areAllSetsOK s" "rebootRounds st i pid = Some round"
      "map_of round (Endpoint s) = None" "\<not> conflictsWith round s"
      "st' = placeServer i pid pkey skey v s round st"
proof -
  from assms obtain v where v: "map_of (ss_pools st) pkey = Some v"
    by (cases "map_of (ss_pools st) pkey") (auto simp: scheduleServer_def)
  from assms v obtain s where s: "map_of (Servers v) skey = Some s"
    by (cases "map_of (Servers v) skey") (auto simp: scheduleServer_def)
  show thesis
  proof (cases "Processed s")
    case True
    with assms v s have "st' = st" by (simp add: scheduleServer_def)
    with v s True show thesis by (rule skip)
  next
    case np: False
    show thesis
    proof (cases "areAllSetsOK s")
      case False
      with assms v s np have "st' = st\<lparr>unhealthy := AList.update (Endpoint s) s (unhealthy st)\<rparr>"
        by (simp add: scheduleServer_def)
      with v s np False show thesis by (rule unhealthy)
    next
      case ok: True
      show thesis
      proof (cases "rebootRounds st i pid")
        case None
        with assms v s np ok have "st' = st"
          by (auto simp: scheduleServer_def split: if_splits)
        with v s np ok show thesis by (rule wait)
      next
        case (Some round)
        show thesis
        proof (cases "map_of round (Endpoint s) = None \<and> \<not> conflictsWith round s")
          case True
          with assms v s np ok Some have "st' = placeServer i pid pkey skey v s round st"
            by (simp add: scheduleServer_def)
          with v s np ok Some True show thesis by (intro place) auto
        next
          case False
          with assms v s np ok Some have "st' = st"
            by (auto simp: scheduleServer_def split: if_splits)
          with v s np ok show thesis by (rule wait)
        qed
      qed
    qed
  qed
qed

lemma foldE_inv:
  assumes "foldE f xs s = Inr s'" and "I s"
    and "\<And>x s s'. x \<in> set xs \<Longrightarrow> I s \<Longrightarrow> f x s = Inr s' \<Longrightarrow> I s'"
  shows "I s'"
  using assms
proof (induction xs arbitrary: s)
  case Nil
  then show ?case by simp
next
  case (Cons x xs)
  from Cons.prems(1) obtain s1 where a: "f x s = Inr s1" and b: "foldE f xs s1 = Inr s'"
    by (auto split: sum.splits)
  have s1: "I s1" using Cons.prems(3) [OF _ Cons.prems(2) a] by simp
  have "\<And>y t t'. y \<in> set xs \<Longrightarrow> I t \<Longrightarrow> f y t = Inr t' \<Longrightarrow> I t'"
    using Cons.prems(3) by (meson list.set_intros(2))
  with Cons.IH [OF b s1] show ?case by blast
qed

lemma schedulePool_cases [consumes 1]:
  assumes "schedulePool i pkey st = Inr st'"
  obtains pidw v where "Atoi pkey = Some pidw" "0 \<le> sint pidw" "sint pidw < int roundsLen"
    "map_of (ss_pools st) pkey = Some v"
    "foldE (scheduleServer i (nat (sint pidw)) pkey) (stringKeysSorted (Servers v))
        (makeRound i (nat (sint pidw)) st) = Inr st'"
  using assms
  by (auto simp: schedulePool_def split: option.splits if_splits)

lemma rebootRounds_makeRound:
  "rebootRounds (makeRound i pid st) i' pid' =
     (if i' = i \<and> pid' = pid \<and> rebootRounds st i pid = None then Some [] else rebootRounds st i' pid')"
  by (auto simp: makeRound_def)

lemma makeRound_fields [simp]:
  "ss_pools (makeRound i pid st) = ss_pools st"
  "unhealthy (makeRound i pid st) = unhealthy st"
  "processed (makeRound i pid st) = processed st"
  by (simp_all add: makeRound_def)

lemma scheduleServer_rounds_mono:
  assumes "scheduleServer i pid pkey skey st = Inr st'" "rebootRounds st i' pid' \<noteq> None"
  shows "rebootRounds st' i' pid' \<noteq> None"
  using assms by (cases rule: scheduleServer_cases) (auto simp: placeServer_def)

text \<open>An invariant of the scheduler state holds after the run when it holds at the start
  and every step keeps it.\<close>

lemma schedulePool_invariant:
  assumes run: "schedulePool i pkey st = Inr st'" and init: "I st"
    and mk: "\<And>pid st. I st \<Longrightarrow> I (makeRound i pid st)"
    and step: "\<And>pidw skey st st'. I st \<Longrightarrow> Atoi pkey = Some pidw \<Longrightarrow> 0 \<le> sint pidw \<Longrightarrow>
          sint pidw < int roundsLen \<Longrightarrow> rebootRounds st i (nat (sint pidw)) \<noteq> None \<Longrightarrow>
          scheduleServer i (nat (sint pidw)) pkey skey st = Inr st' \<Longrightarrow> I st'"
  shows "I st'"
proof -
  from run obtain pidw v where a: "Atoi pkey = Some pidw" "0 \<le> sint pidw" "sint pidw < int roundsLen"
    and v: "map_of (ss_pools st) pkey = Some v"
    and f: "foldE (scheduleServer i (nat (sint pidw)) pkey) (stringKeysSorted (Servers v))
        (makeRound i (nat (sint pidw)) st) = Inr st'"
    by (rule schedulePool_cases)
  let ?J = "\<lambda>st. I st \<and> rebootRounds st i (nat (sint pidw)) \<noteq> None"
  have "?J st'"
  proof (rule foldE_inv [where I = ?J, OF f])
    show "?J (makeRound i (nat (sint pidw)) st)"
      using mk [OF init] by (simp add: rebootRounds_makeRound)
  next
    fix x s s'
    assume "?J s" and r: "scheduleServer i (nat (sint pidw)) pkey x s = Inr s'"
    then show "?J s'"
      using step [OF _ a _ r] scheduleServer_rounds_mono [OF r] by blast
  qed
  then show ?thesis ..
qed

lemma roundLoop_invariant:
  assumes run: "roundLoop k i poolss tot st = Inr (st', rep)" and init: "I st"
    and mk: "\<And>i pid st. I st \<Longrightarrow> I (makeRound i pid st)"
    and step: "\<And>i pidw pkey skey st st'. I st \<Longrightarrow> pkey \<in> set poolss \<Longrightarrow>
          Atoi pkey = Some pidw \<Longrightarrow> 0 \<le> sint pidw \<Longrightarrow>
          sint pidw < int roundsLen \<Longrightarrow> rebootRounds st i (nat (sint pidw)) \<noteq> None \<Longrightarrow>
          scheduleServer i (nat (sint pidw)) pkey skey st = Inr st' \<Longrightarrow> I st'"
  shows "I st'"
  using run init
proof (induction k arbitrary: i st)
  case 0
  then show ?case by simp
next
  case (Suc k)
  show ?case
  proof (cases "tot \<le>s processed st")
    case True
    with Suc.prems show ?thesis by simp
  next
    case False
    with Suc.prems(1) obtain st1 where p: "foldE (schedulePool i) poolss st = Inr st1"
      and r: "roundLoop k (Suc i) poolss tot st1 = Inr (st', rep)"
      by (auto split: sum.splits)
    have "I st1"
    proof (rule foldE_inv [where I = I, OF p Suc.prems(2)])
      fix pkey s s'
      assume "pkey \<in> set poolss" "I s" "schedulePool i pkey s = Inr s'"
      then show "I s'"
        using mk step by (elim schedulePool_invariant) blast+
    qed
    from Suc.IH [OF r this] show ?thesis .
  qed
qed

lemma update_absent: "map_of al k = None \<Longrightarrow> AList.update k v al = al @ [(k, v)]"
  by (induction al) (auto split: if_splits)

lemma update_present_keys: "map_of al k = Some u \<Longrightarrow> map fst (AList.update k v al) = map fst al"
  by (induction al) (auto split: if_splits)

lemma setIds_Processed [simp]: "setIds (s\<lparr>Processed := b\<rparr>) = setIds s"
  by (simp add: setIds_def)

lemma areAllSetsOK_Processed [simp]: "areAllSetsOK (s\<lparr>Processed := b\<rparr>) = areAllSetsOK s"
  by (simp add: areAllSetsOK_def)

lemma placeServer_rounds:
  assumes "rebootRounds st i pid = Some round" "map_of round (Endpoint s) = None"
  shows "rebootRounds (placeServer i pid pkey skey v s round st) i' pid' =
     (if i' = i \<and> pid' = pid then Some (round @ [(Endpoint s, s\<lparr>Processed := True\<rparr>)])
      else rebootRounds st i' pid')"
  using assms by (simp add: placeServer_def update_absent)

lemma placeServer_fields [simp]:
  "unhealthy (placeServer i pid pkey skey v s round st) = unhealthy st"
  "processed (placeServer i pid pkey skey v s round st) = processed st + 1"
  by (simp_all add: placeServer_def)

lemma placeServer_pools:
  "ss_pools (placeServer i pid pkey skey v s round st) = AList.update pkey
           (v\<lparr>Servers := AList.update skey (s\<lparr>Processed := True\<rparr>) (Servers v)\<rparr>) (ss_pools st)"
  by (simp add: placeServer_def)

lemma placeServer_slotHas:
  assumes "rebootRounds st i pid = Some round" "map_of round (Endpoint s) = None"
  shows "slotHas (placeServer i pid pkey skey v s round st) i' pid' e \<longleftrightarrow>
     slotHas st i' pid' e \<or> (i' = i \<and> pid' = pid \<and> e = Endpoint s)"
  using assms by (auto simp: slotHas_def placeServer_rounds [OF assms] map_add_Some_iff)

lemma placeServer_inRound:
  assumes "rebootRounds st i pid = Some round" "map_of round (Endpoint s) = None"
  shows "inRound (placeServer i pid pkey skey v s round st) i' pid' e x \<longleftrightarrow>
     inRound st i' pid' e x \<or> (i' = i \<and> pid' = pid \<and> e = Endpoint s \<and> x = s\<lparr>Processed := True\<rparr>)"
  using assms by (auto simp: inRound_def placeServer_rounds [OF assms] map_add_Some_iff)

lemma placeServer_serverAt:
  assumes "map_of (ss_pools st) pkey = Some v"
  shows "serverAt (ss_pools (placeServer i pid pkey skey v s round st)) pk h =
     (if pk = pkey \<and> h = skey then Some (s\<lparr>Processed := True\<rparr>) else serverAt (ss_pools st) pk h)"
  using assms by (auto simp: serverAt_def update_conv' placeServer_pools)

lemma placeServer_keys:
  assumes "map_of (ss_pools st) pkey = Some v" "map_of (Servers v) skey = Some s"
  shows "map fst (ss_pools (placeServer i pid pkey skey v s round st)) = map fst (ss_pools st)"
    and "map_option (\<lambda>v. map fst (Servers v)) (map_of (ss_pools (placeServer i pid pkey skey v s round st)) pk)
       = map_option (\<lambda>v. map fst (Servers v)) (map_of (ss_pools st) pk)"
  using assms by (auto simp: update_present_keys update_conv' placeServer_pools)

lemma slotHas_makeRound [simp]: "slotHas (makeRound i pid st) i' pid' e = slotHas st i' pid' e"
  by (auto simp: slotHas_def rebootRounds_makeRound split: option.splits)

lemma inRound_makeRound [simp]: "inRound (makeRound i pid st) i' pid' e x = inRound st i' pid' e x"
  by (auto simp: inRound_def rebootRounds_makeRound split: option.splits)

lemma inAnyRound_makeRound [simp]: "inAnyRound (makeRound i pid st) pk h = inAnyRound st pk h"
  by (simp add: inAnyRound_def)

lemma slots_ok_makeRound: "slots_ok st \<Longrightarrow> slots_ok (makeRound i pid st)"
  by (auto simp: slots_ok_def rebootRounds_makeRound split: if_splits)

lemma slots_ok_step:
  assumes "scheduleServer i pid pkey skey st = Inr st'" "slots_ok st"
  shows "slots_ok st'"
  using assms(1)
proof (cases rule: scheduleServer_cases)
  case (place v s round)
  note r = placeServer_rounds [OF place(5) place(6)]
  from assms(2) place(5) have d: "distinct (map fst round)"
    and dj: "\<forall>x\<in>set round. \<forall>y\<in>set round. fst x \<noteq> fst y \<longrightarrow> setIds (snd x) \<inter> setIds (snd y) = {}"
    by (auto simp: slots_ok_def)
  from place(6) have nk: "Endpoint s \<notin> fst ` set round"
    by (simp add: map_of_eq_None_iff)
  from place(7) have nc: "\<forall>x\<in>set round. setIds (snd x) \<inter> setIds s = {}"
    by (simp add: conflictsWith_iff)
  let ?m = "round @ [(Endpoint s, s\<lparr>Processed := True\<rparr>)]"
  have d': "distinct (map fst ?m)" using d nk by simp
  have dj': "\<forall>x\<in>set ?m. \<forall>y\<in>set ?m. fst x \<noteq> fst y \<longrightarrow> setIds (snd x) \<inter> setIds (snd y) = {}"
    using dj nc by auto
  show ?thesis
    unfolding slots_ok_def place(8)
  proof (intro allI impI)
    fix i' pid' m
    assume a: "rebootRounds (placeServer i pid pkey skey v s round st) i' pid' = Some m"
    show "distinct (map fst m) \<and>
      (\<forall>x\<in>set m. \<forall>y\<in>set m. fst x \<noteq> fst y \<longrightarrow> setIds (snd x) \<inter> setIds (snd y) = {})"
    proof (cases "i' = i \<and> pid' = pid")
      case True
      with a r have "m = ?m" by simp
      with d' dj' show ?thesis by blast
    next
      case False
      with a r have "rebootRounds st i' pid' = Some m" by auto
      with assms(2) show ?thesis unfolding slots_ok_def by blast
    qed
  qed
qed (use assms(2) in \<open>auto simp: slots_ok_def\<close>)

lemma slots_ok_init: "slots_ok (sched_init ps)"
  by (simp add: slots_ok_def sched_init_def)

lemma schedule_slots_ok:
  assumes "schedule ps tot = Inr (st, rep)"
  shows "slots_ok st"
  using assms unfolding schedule_def
  by (rule roundLoop_invariant [where I = slots_ok])
     (auto intro: slots_ok_init slots_ok_makeRound slots_ok_step)

lemma poolSlot_Itoa:
  "poolSlot (Itoa w) = (if 0 \<le> sint w \<and> sint w < int roundsLen then Some (nat (sint w)) else None)"
  by (simp add: poolSlot_def Atoi_Itoa)

lemma poolSlot_inj:
  assumes "poolSlot (Itoa a) = Some pid" "poolSlot (Itoa b) = Some pid"
  shows "a = b"
proof -
  from assms have "sint a = sint b"
    by (auto simp: poolSlot_Itoa split: if_splits)
  then show ?thesis by (rule signed_word_eqI)
qed

lemma poolSlot_context:
  "Atoi pkey = Some pidw \<Longrightarrow> 0 \<le> sint pidw \<Longrightarrow> sint pidw < int roundsLen \<Longrightarrow>
     poolSlot pkey = Some (nat (sint pidw))"
  by (simp add: poolSlot_def)

lemma wf_pools_key:
  assumes "wf_pools ps" "serverAt ps pk h = Some s"
  obtains w where "pk = Itoa w"
  using assms by (auto simp: wf_pools_def serverAt_def split: option.splits)

lemma wf_poolSlot_inj:
  assumes "wf_pools ps" "serverAt ps pk h \<noteq> None" "serverAt ps pk' h' \<noteq> None"
    "poolSlot pk = Some pid" "poolSlot pk' = Some pid"
  shows "pk = pk'"
proof -
  from assms(1,2) obtain w where w: "pk = Itoa w" by (auto elim: wf_pools_key)
  from assms(1,3) obtain w' where w': "pk' = Itoa w'" by (auto elim: wf_pools_key)
  from assms(4,5) have "w = w'" unfolding w w' by (rule poolSlot_inj)
  then show ?thesis by (simp add: w w')
qed

lemma sched_invD:
  assumes "sched_inv ps st"
  shows "map fst (ss_pools st) = map fst ps"
    and "\<And>pk. map_option (\<lambda>v. map fst (Servers v)) (map_of (ss_pools st) pk) =
           map_option (\<lambda>v. map fst (Servers v)) (map_of ps pk)"
    and "\<And>pk h. serverAt (ss_pools st) pk h =
           map_option (\<lambda>s0. s0\<lparr>Processed := inAnyRound st pk h\<rparr>) (serverAt ps pk h)"
    and "\<And>i pid e s. inRound st i pid e s \<Longrightarrow>
           (\<exists>pk. poolSlot pk = Some pid \<and> serverAt (ss_pools st) pk e = Some s) \<and> areAllSetsOK s"
    and "\<And>i j pid e. slotHas st i pid e \<Longrightarrow> slotHas st j pid e \<Longrightarrow> i = j"
    and "\<And>e s. map_of (unhealthy st) e = Some s \<Longrightarrow>
           (\<exists>pk. serverAt (ss_pools st) pk e = Some s) \<and> \<not> areAllSetsOK s"
    and "processed st = of_nat (card (processedSet (ss_pools st)))"
  using assms unfolding sched_inv_def by blast+

lemma sched_invI:
  assumes "map fst (ss_pools st) = map fst ps"
    and "\<And>pk. map_option (\<lambda>v. map fst (Servers v)) (map_of (ss_pools st) pk) =
           map_option (\<lambda>v. map fst (Servers v)) (map_of ps pk)"
    and "\<And>pk h. serverAt (ss_pools st) pk h =
           map_option (\<lambda>s0. s0\<lparr>Processed := inAnyRound st pk h\<rparr>) (serverAt ps pk h)"
    and "\<And>i pid e s. inRound st i pid e s \<Longrightarrow>
           (\<exists>pk. poolSlot pk = Some pid \<and> serverAt (ss_pools st) pk e = Some s) \<and> areAllSetsOK s"
    and "\<And>i j pid e. slotHas st i pid e \<Longrightarrow> slotHas st j pid e \<Longrightarrow> i = j"
    and "\<And>e s. map_of (unhealthy st) e = Some s \<Longrightarrow>
           (\<exists>pk. serverAt (ss_pools st) pk e = Some s) \<and> \<not> areAllSetsOK s"
    and "processed st = of_nat (card (processedSet (ss_pools st)))"
  shows "sched_inv ps st"
  using assms unfolding sched_inv_def by blast

lemma slotHas_inRound: "slotHas st i pid e \<longleftrightarrow> (\<exists>s. inRound st i pid e s)"
  by (auto simp: slotHas_def inRound_def split: option.splits)

text \<open>Under the invariant, a Server of the state: where it comes from, and what its
  \<open>Processed\<close> flag says.\<close>

lemma sched_inv_server:
  assumes "sched_inv ps st" "wf_pools ps" "serverAt (ss_pools st) pk h = Some s"
  obtains s0 where "serverAt ps pk h = Some s0" "s = s0\<lparr>Processed := inAnyRound st pk h\<rparr>"
    "Endpoint s = h" "Processed s = inAnyRound st pk h" "setIds s = setIds s0"
    "areAllSetsOK s = areAllSetsOK s0"
proof -
  from sched_invD(3) [OF assms(1), of pk h] assms(3)
  obtain s0 where a: "serverAt ps pk h = Some s0" and b: "s = s0\<lparr>Processed := inAnyRound st pk h\<rparr>"
    by (cases "serverAt ps pk h") auto
  from assms(2) a have "Endpoint s0 = h" by (auto simp: wf_pools_def)
  with a b show thesis by (intro that [of s0]) simp_all
qed

lemma sched_inv_processed_ok:
  assumes "sched_inv ps st" "wf_pools ps" "serverAt (ss_pools st) pk h = Some s" "Processed s"
  shows "areAllSetsOK s \<and> (\<exists>i pid. poolSlot pk = Some pid \<and> inRound st i pid h s)"
proof -
  from assms(1-3) obtain s0 where s0: "serverAt ps pk h = Some s0"
    and p: "Processed s = inAnyRound st pk h"
    by (rule sched_inv_server)
  with assms(4) obtain i pid where sl: "poolSlot pk = Some pid" "slotHas st i pid h"
    by (auto simp: inAnyRound_def)
  then obtain x where x: "inRound st i pid h x" by (auto simp: slotHas_inRound)
  from sched_invD(4) [OF assms(1) x] obtain pk' where
    pk': "poolSlot pk' = Some pid" "serverAt (ss_pools st) pk' h = Some x" and ok: "areAllSetsOK x"
    by blast
  from pk'(2) sched_invD(3) [OF assms(1), of pk' h] have "serverAt ps pk' h \<noteq> None" by auto
  with wf_poolSlot_inj [OF assms(2) _ _ sl(1) pk'(1), of h h] s0 have "pk = pk'" by simp
  with pk'(2) assms(3) have "x = s" by simp
  with ok x sl show ?thesis by blast
qed

lemma finite_serverSet: "finite (serverSet ps)"
proof -
  have "serverSet ps \<subseteq> (\<Union>kp\<in>set ps. {fst kp} \<times> fst ` set (Servers (snd kp)))"
  proof
    fix x assume "x \<in> serverSet ps"
    then obtain pk h p s where x: "x = (pk, h)" and p: "map_of ps pk = Some p"
      and s: "map_of (Servers p) h = Some s"
      by (auto simp: serverSet_def serverAt_def split: option.splits)
    from p have "(pk, p) \<in> set ps" by (rule map_of_SomeD)
    moreover from s have "(h, s) \<in> set (Servers p)" by (rule map_of_SomeD)
    then have "h \<in> fst ` set (Servers p)" by force
    ultimately show "x \<in> (\<Union>kp\<in>set ps. {fst kp} \<times> fst ` set (Servers (snd kp)))"
      unfolding x by force
  qed
  then show ?thesis by (rule finite_subset) simp
qed

lemma processedSet_subset: "processedSet ps \<subseteq> serverSet ps"
  by (auto simp: processedSet_def serverSet_def)

lemma finite_processedSet: "finite (processedSet ps)"
  using processedSet_subset finite_serverSet by (rule finite_subset)

lemma slotHas_unhealthy [simp]: "slotHas (st\<lparr>unhealthy := u\<rparr>) i pid e = slotHas st i pid e"
  by (simp add: slotHas_def)

lemma inRound_unhealthy [simp]: "inRound (st\<lparr>unhealthy := u\<rparr>) i pid e x = inRound st i pid e x"
  by (simp add: inRound_def)

lemma inAnyRound_unhealthy [simp]: "inAnyRound (st\<lparr>unhealthy := u\<rparr>) pk h = inAnyRound st pk h"
  by (simp add: inAnyRound_def)

lemma sched_inv_frame:
  assumes inv: "sched_inv ps st"
    and p: "ss_pools st' = ss_pools st"
    and r: "\<And>i pid e x. inRound st' i pid e x = inRound st i pid e x"
    and c: "processed st' = processed st"
    and u: "\<And>e x. map_of (unhealthy st') e = Some x \<Longrightarrow> map_of (unhealthy st) e = Some x \<or>
            ((\<exists>pk. serverAt (ss_pools st) pk e = Some x) \<and> \<not> areAllSetsOK x)"
  shows "sched_inv ps st'"
proof -
  note d = sched_invD [OF inv]
  have sl: "slotHas st' i pid e = slotHas st i pid e" for i pid e
    by (simp add: slotHas_inRound r)
  have ia: "inAnyRound st' pk h = inAnyRound st pk h" for pk h
    by (simp add: inAnyRound_def sl)
  show ?thesis
  proof (rule sched_invI)
    show "map fst (ss_pools st') = map fst ps" using d(1) by (simp add: p)
    show "map_option (\<lambda>v. map fst (Servers v)) (map_of (ss_pools st') pk) =
           map_option (\<lambda>v. map fst (Servers v)) (map_of ps pk)" for pk
      using d(2) [of pk] by (simp add: p)
    show "serverAt (ss_pools st') pk h =
           map_option (\<lambda>s0. s0\<lparr>Processed := inAnyRound st' pk h\<rparr>) (serverAt ps pk h)" for pk h
      using d(3) [of pk h] by (simp add: p ia)
    show "(\<exists>pk. poolSlot pk = Some pid \<and> serverAt (ss_pools st') pk e = Some s) \<and> areAllSetsOK s"
      if "inRound st' i pid e s" for i pid e s
      using d(4) [of i pid e s] that by (simp add: p r)
    show "i = j" if "slotHas st' i pid e" "slotHas st' j pid e" for i j pid e
      using d(5) [of i pid e j] that by (simp add: sl)
    show "(\<exists>pk. serverAt (ss_pools st') pk e = Some s) \<and> \<not> areAllSetsOK s"
      if "map_of (unhealthy st') e = Some s" for e s
      using u [OF that] d(6) [of e s] by (auto simp: p)
    show "processed st' = of_nat (card (processedSet (ss_pools st')))"
      using d(7) by (simp add: p c)
  qed
qed

lemma sched_inv_makeRound:
  assumes "sched_inv ps st"
  shows "sched_inv ps (makeRound i pid st)"
  using assms by (rule sched_inv_frame) simp_all

lemma sched_inv_unhealthy:
  assumes inv: "sched_inv ps st" and wf: "wf_pools ps"
    and v: "map_of (ss_pools st) pkey = Some v" and s: "map_of (Servers v) skey = Some s"
    and bad: "\<not> areAllSetsOK s"
  shows "sched_inv ps (st\<lparr>unhealthy := AList.update (Endpoint s) s (unhealthy st)\<rparr>)"
proof -
  from v s have sa: "serverAt (ss_pools st) pkey skey = Some s" by (simp add: serverAt_def)
  from inv wf sa have e: "Endpoint s = skey" by (rule sched_inv_server)
  show ?thesis
  proof (rule sched_inv_frame [OF inv])
    fix e' x
    assume "map_of (unhealthy (st\<lparr>unhealthy := AList.update (Endpoint s) s (unhealthy st)\<rparr>)) e' = Some x"
    then have "(e' = skey \<and> x = s) \<or> map_of (unhealthy st) e' = Some x"
      by (auto simp: update_conv' e split: if_splits)
    then show "map_of (unhealthy st) e' = Some x \<or>
        ((\<exists>pk. serverAt (ss_pools st) pk e' = Some x) \<and> \<not> areAllSetsOK x)"
      using sa bad by auto
  qed simp_all
qed

lemma sched_inv_place:
  assumes inv: "sched_inv ps st" and wf: "wf_pools ps"
    and v: "map_of (ss_pools st) pkey = Some v" and s: "map_of (Servers v) skey = Some s"
    and np: "\<not> Processed s" and ok: "areAllSetsOK s"
    and rr: "rebootRounds st i pid = Some round" and nk: "map_of round (Endpoint s) = None"
    and slot: "poolSlot pkey = Some pid"
  shows "sched_inv ps (placeServer i pid pkey skey v s round st)"
proof -
  let ?st = "placeServer i pid pkey skey v s round st"
  let ?s = "s\<lparr>Processed := True\<rparr>"
  note d = sched_invD [OF inv]
  from v s have sa: "serverAt (ss_pools st) pkey skey = Some s" by (simp add: serverAt_def)
  from inv wf sa obtain s0 where s0: "serverAt ps pkey skey = Some s0"
    and ss0: "s = s0\<lparr>Processed := inAnyRound st pkey skey\<rparr>"
    and e: "Endpoint s = skey" and pr: "Processed s = inAnyRound st pkey skey"
    by (rule sched_inv_server)
  from np pr have nr: "\<not> inAnyRound st pkey skey" by simp
  then have ns: "\<not> slotHas st j pid skey" for j
    using slot by (auto simp: inAnyRound_def)
  have SH: "slotHas ?st i' pid' e' \<longleftrightarrow> slotHas st i' pid' e' \<or> (i' = i \<and> pid' = pid \<and> e' = skey)"
    for i' pid' e'
    using placeServer_slotHas [OF rr nk] by (simp add: e)
  have IR: "inRound ?st i' pid' e' x \<longleftrightarrow>
      inRound st i' pid' e' x \<or> (i' = i \<and> pid' = pid \<and> e' = skey \<and> x = ?s)" for i' pid' e' x
    using placeServer_inRound [OF rr nk] by (simp add: e)
  have SA: "serverAt (ss_pools ?st) pk h =
      (if pk = pkey \<and> h = skey then Some ?s else serverAt (ss_pools st) pk h)" for pk h
    by (rule placeServer_serverAt [OF v])
  have IA: "inAnyRound ?st pk h \<longleftrightarrow> inAnyRound st pk h \<or> (poolSlot pk = Some pid \<and> h = skey)"
    for pk h
    by (auto simp: inAnyRound_def SH)
  show ?thesis
  proof (rule sched_invI)
    show "map fst (ss_pools ?st) = map fst ps"
      using placeServer_keys(1) [OF v s] d(1) by simp
    show "map_option (\<lambda>v. map fst (Servers v)) (map_of (ss_pools ?st) pk) =
           map_option (\<lambda>v. map fst (Servers v)) (map_of ps pk)" for pk
      using placeServer_keys(2) [OF v s] d(2) by simp
    show "serverAt (ss_pools ?st) pk h =
           map_option (\<lambda>s0. s0\<lparr>Processed := inAnyRound ?st pk h\<rparr>) (serverAt ps pk h)" for pk h
    proof (cases "pk = pkey \<and> h = skey")
      case True
      have ia: "inAnyRound ?st pkey skey" using slot by (simp add: IA)
      have eq: "?s = s0\<lparr>Processed := True\<rparr>" by (subst ss0) simp
      have "serverAt (ss_pools ?st) pk h = Some ?s" using True by (simp add: SA)
      also have "\<dots> = map_option (\<lambda>s0. s0\<lparr>Processed := inAnyRound ?st pk h\<rparr>) (serverAt ps pk h)"
        using True ia s0 by (simp add: eq)
      finally show ?thesis .
    next
      case False
      have ia: "inAnyRound ?st pk h = inAnyRound st pk h" if "serverAt ps pk h \<noteq> None"
      proof -
        have "\<not> (poolSlot pk = Some pid \<and> h = skey)"
        proof
          assume a: "poolSlot pk = Some pid \<and> h = skey"
          from wf_poolSlot_inj [OF wf, of pk h pkey skey pid] that s0 a slot
          have "pk = pkey" by simp
          with a False show False by simp
        qed
        then show ?thesis unfolding IA by blast
      qed
      have "serverAt (ss_pools ?st) pk h = serverAt (ss_pools st) pk h"
        unfolding SA using False by (rule if_not_P)
      also have "\<dots> = map_option (\<lambda>s0. s0\<lparr>Processed := inAnyRound st pk h\<rparr>) (serverAt ps pk h)"
        by (rule d(3))
      also have "\<dots> = map_option (\<lambda>s0. s0\<lparr>Processed := inAnyRound ?st pk h\<rparr>) (serverAt ps pk h)"
        using ia by (cases "serverAt ps pk h") simp_all
      finally show ?thesis .
    qed
    show "(\<exists>pk. poolSlot pk = Some pid' \<and> serverAt (ss_pools ?st) pk e' = Some x) \<and> areAllSetsOK x"
      if a: "inRound ?st i' pid' e' x" for i' pid' e' x
    proof (cases "inRound st i' pid' e' x")
      case True
      from d(4) [OF True] obtain pk where pk: "poolSlot pk = Some pid'"
        "serverAt (ss_pools st) pk e' = Some x" and okx: "areAllSetsOK x" by blast
      have "\<not> (pk = pkey \<and> e' = skey)"
      proof
        assume b: "pk = pkey \<and> e' = skey"
        with pk slot have "pid' = pid" by simp
        with True b have "slotHas st i' pid skey" unfolding slotHas_inRound by blast
        with ns show False by simp
      qed
      then have "serverAt (ss_pools ?st) pk e' = serverAt (ss_pools st) pk e'"
        unfolding SA by (rule if_not_P)
      with pk okx show ?thesis by metis
    next
      case False
      with a have n: "i' = i" "pid' = pid" "e' = skey" "x = ?s" unfolding IR by blast+
      have "serverAt (ss_pools ?st) pkey skey = Some ?s" unfolding SA by simp
      with slot ok n show ?thesis by (metis areAllSetsOK_Processed)
    qed
    show "i1 = j" if "slotHas ?st i1 p e'" "slotHas ?st j p e'" for i1 j p e'
      using that d(5) [of i1 p e' j] ns unfolding SH by blast
    show "(\<exists>pk. serverAt (ss_pools ?st) pk e' = Some x) \<and> \<not> areAllSetsOK x"
      if a: "map_of (unhealthy ?st) e' = Some x" for e' x
    proof -
      from a have "map_of (unhealthy st) e' = Some x" by simp
      from d(6) [OF this] obtain pk where pk: "serverAt (ss_pools st) pk e' = Some x"
        and bad: "\<not> areAllSetsOK x" by blast
      have "\<not> (pk = pkey \<and> e' = skey)" using pk sa bad ok by auto
      then have "serverAt (ss_pools ?st) pk e' = serverAt (ss_pools st) pk e'"
        unfolding SA by (rule if_not_P)
      with pk bad show ?thesis by metis
    qed
    have ps': "processedSet (ss_pools ?st) = insert (pkey, skey) (processedSet (ss_pools st))"
      unfolding processedSet_def SA by (auto split: if_splits)
    have "(pkey, skey) \<notin> processedSet (ss_pools st)"
      using sa np by (simp add: processedSet_def)
    then have "card (processedSet (ss_pools ?st)) = Suc (card (processedSet (ss_pools st)))"
      unfolding ps' using finite_processedSet by simp
    then show "processed ?st = of_nat (card (processedSet (ss_pools ?st)))"
      using d(7) by simp
  qed
qed

lemma sched_inv_step:
  assumes run: "scheduleServer i pid pkey skey st = Inr st'"
    and inv: "sched_inv ps st" and wf: "wf_pools ps" and slot: "poolSlot pkey = Some pid"
  shows "sched_inv ps st'"
  using run
proof (cases rule: scheduleServer_cases)
  case (skip v s)
  with inv show ?thesis by simp
next
  case (unhealthy v s)
  with sched_inv_unhealthy [OF inv wf unhealthy(1,2,4)] show ?thesis by simp
next
  case (wait v s)
  with inv show ?thesis by simp
next
  case (place v s round)
  with sched_inv_place [OF inv wf place(1-6) slot] show ?thesis by simp
qed

lemma sched_inv_init:
  assumes "wf_pools ps"
  shows "sched_inv ps (sched_init ps)"
proof -
  have n: "\<not> inAnyRound (sched_init ps) pk h" for pk h
    by (simp add: inAnyRound_def slotHas_def sched_init_def)
  have p: "ss_pools (sched_init ps) = ps" by (simp add: sched_init_def)
  have f: "serverAt ps pk h = map_option (\<lambda>s0. s0\<lparr>Processed := False\<rparr>) (serverAt ps pk h)" for pk h
    using assms by (cases "serverAt ps pk h") (auto simp: wf_pools_def)
  have e: "processedSet ps = {}"
    using assms by (auto simp: processedSet_def wf_pools_def)
  show ?thesis
  proof (rule sched_invI)
    show "serverAt (ss_pools (sched_init ps)) pk h =
       map_option (\<lambda>s0. s0\<lparr>Processed := inAnyRound (sched_init ps) pk h\<rparr>) (serverAt ps pk h)" for pk h
      using f [of pk h] by (simp add: p n)
    show "processed (sched_init ps) = of_nat (card (processedSet (ss_pools (sched_init ps))))"
      by (simp add: p e) (simp add: sched_init_def)
  qed (simp_all add: p, simp_all add: sched_init_def inRound_def slotHas_def)
qed

lemma roundLoop_sched_inv:
  assumes "roundLoop k i poolss tot st = Inr (st', rep)" "sched_inv ps st" "wf_pools ps"
  shows "sched_inv ps st'"
  using assms(1,2)
proof (rule roundLoop_invariant [where I = "sched_inv ps"])
  show "sched_inv ps (makeRound i pid st)" if "sched_inv ps st" for i pid st
    using that by (rule sched_inv_makeRound)
  show "sched_inv ps st'" if "sched_inv ps st" "Atoi pkey = Some pidw" "0 \<le> sint pidw"
    "sint pidw < int roundsLen" "scheduleServer i (nat (sint pidw)) pkey skey st = Inr st'"
    for i pidw pkey skey st st'
    using sched_inv_step [OF that(5) that(1) assms(3) poolSlot_context [OF that(2-4)]] .
qed

lemma serverSet_Cons:
  assumes "k \<notin> fst ` set ps"
  shows "serverSet ((k, p) # ps) = ({k} \<times> fst ` set (Servers p)) \<union> serverSet ps"
proof -
  have n: "map_of ps k = None" using assms by (simp add: map_of_eq_None_iff)
  have m: "(map_of (Servers p) h \<noteq> None) = (h \<in> fst ` set (Servers p))" for h
    by (simp add: map_of_eq_None_iff)
  have "serverAt ((k, p) # ps) pk h \<noteq> None \<longleftrightarrow>
     (pk = k \<and> h \<in> fst ` set (Servers p)) \<or> serverAt ps pk h \<noteq> None" for pk h
  proof (cases "pk = k")
    case True
    with n m [of h] show ?thesis by (simp add: serverAt_def)
  next
    case False
    then show ?thesis by (simp add: serverAt_def)
  qed
  then show ?thesis by (auto simp: serverSet_def)
qed

lemma serverSet_fst: "x \<in> serverSet ps \<Longrightarrow> fst x \<in> fst ` set ps"
  by (auto simp: serverSet_def serverAt_def split: option.splits dest!: map_of_SomeD intro: rev_image_eqI)

lemma card_serverSet:
  assumes "distinct (map fst ps)" "\<forall>kp\<in>set ps. distinct (map fst (Servers (snd kp)))"
  shows "card (serverSet ps) = countServers ps"
  using assms
proof (induction ps)
  case Nil
  then show ?case by (simp add: serverSet_def serverAt_def countServers_def)
next
  case (Cons a ps)
  obtain k p where a: "a = (k, p)" by (cases a)
  from Cons.prems a have nk: "k \<notin> fst ` set ps" and dp: "distinct (map fst (Servers p))" by auto
  have dj: "({k} \<times> fst ` set (Servers p)) \<inter> serverSet ps = {}"
    using nk serverSet_fst by fastforce
  have c1: "card ({k} \<times> fst ` set (Servers p)) = length (Servers p)"
    using dp by (simp add: card_cartesian_product_singleton distinct_card [symmetric])
       (metis distinct_card length_map list.set_map)
  have "card (serverSet (a # ps)) = card ({k} \<times> fst ` set (Servers p)) + card (serverSet ps)"
    unfolding a serverSet_Cons [OF nk]
    by (rule card_Un_disjoint) (use dj finite_serverSet in auto)
  also have "\<dots> = length (Servers p) + countServers ps"
    using Cons.IH Cons.prems c1 by simp
  finally show ?case by (simp add: a countServers_def)
qed

lemma countServers_finishPools: "countServers (finishPools si ps) = countServers ps"
  by (induction ps) (auto simp: countServers_def finishPools_def finishPool_def)

lemma map_of_finishPools:
  "map_of (finishPools si ps) pk = map_option (finishPool si pk) (map_of ps pk)"
  by (simp add: finishPools_def map_of_keyed_map)

lemma map_fst_finishPools: "map fst (finishPools si ps) = map fst ps"
  unfolding finishPools_def by (rule map_fst_keyed_map)

lemma map_fst_finishPool: "map fst (Servers (finishPool si i v)) = map fst (Servers v)"
proof -
  have "Servers (finishPool si i v) = map (\<lambda>(h, vv). (h, finishServer si i vv)) (Servers v)"
    by (simp add: finishPool_def)
  then show ?thesis by (simp only: map_fst_keyed_map)
qed

lemma getInfra_wf:
  assumes "getInfra parse info = Inr (ps, nsrv)"
  shows "wf_pools ps" and "nsrv = of_nat (card (serverSet ps))"
    and "card (serverSet ps) \<le> length (iDisks info)"
proof -
  from assms obtain st where a: "addDisks parse (Backend info) (iDisks info) init_state = Inr st"
    and ps: "ps = finishPools (st_setInfo st) (st_pools st)" and n: "nsrv = st_totalServers st"
    by (rule getInfra_Inr)
  note pi = pools_inv [OF a]
  have d0: "distinct (map fst ps)"
    using pi by (simp add: ps map_fst_finishPools)
  have d1: "distinct (map fst (Servers v)) \<and> (\<exists>w. pk = Itoa w)" if "map_of ps pk = Some v" for pk v
  proof -
    from that obtain v0 where v0: "map_of (st_pools st) pk = Some v0"
      and v: "v = finishPool (st_setInfo st) pk v0"
      by (auto simp: ps map_of_finishPools)
    from pi v0 have "distinct (map fst (Servers v0))" "\<exists>w. pk = Itoa w" by blast+
    then show ?thesis by (simp add: v map_fst_finishPool)
  qed
  have s1: "Endpoint s = h \<and> \<not> Processed s" if "serverAt ps pk h = Some s" for pk h s
  proof -
    from that obtain s0 where s0: "serverAt (st_pools st) pk h = Some s0"
      and s: "s = finishServer (st_setInfo st) pk s0"
      by (auto simp: ps serverAt_finishPools)
    from server_inv [OF a, of pk h] s0 show ?thesis by (simp add: s finishServer_def)
  qed
  show wf: "wf_pools ps" unfolding wf_pools_def using d0 d1 s1 by blast
  have "\<forall>kp\<in>set ps. distinct (map fst (Servers (snd kp)))"
  proof
    fix kp assume "kp \<in> set ps"
    with d0 have "map_of ps (fst kp) = Some (snd kp)" by simp
    with d1 show "distinct (map fst (Servers (snd kp)))" by blast
  qed
  with d0 have c: "card (serverSet ps) = countServers ps" by (rule card_serverSet)
  have c2: "countServers ps = countServers (st_pools st)"
    by (simp add: ps countServers_finishPools)
  show "nsrv = of_nat (card (serverSet ps))" using pi by (simp add: n c c2)
  show "card (serverSet ps) \<le> length (iDisks info)" using pi by (simp add: c c2)
qed

lemma getInfra_server:
  assumes "getInfra parse info = Inr (ps, nsrv)" and "serverAt ps pk h = Some s"
  shows "distinct (map fst (Sets s))"
proof -
  from assms(1) obtain st where a: "addDisks parse (Backend info) (iDisks info) init_state = Inr st"
    and ps: "ps = finishPools (st_setInfo st) (st_pools st)"
    by (rule getInfra_Inr)
  from assms(2) obtain s0 where s0: "serverAt (st_pools st) pk h = Some s0"
    and s: "s = finishServer (st_setInfo st) pk s0"
    by (auto simp: ps serverAt_finishPools)
  have "Sets s = map (\<lambda>(iii, vvv). (iii, finishSet (st_setInfo st) pk iii vvv)) (Sets s0)"
    by (simp add: s finishServer_def)
  then have "map fst (Sets s) = map fst (Sets s0)" by (simp only: map_fst_keyed_map)
  with server_inv [OF a, of pk h] s0 show ?thesis by simp
qed

lemma view_serverAt:
  "view ps pk h sid = (case serverAt ps pk h of None \<Rightarrow> None | Some s \<Rightarrow> map_of (Sets s) sid)"
  by (simp add: view_def serverAt_def split: option.splits)

lemma makeHostfile_Inr:
  assumes "makeHostfile parse info = Inr (st, rep)"
  obtains ps nsrv where "getInfra parse info = Inr (ps, nsrv)" "schedule ps nsrv = Inr (st, rep)"
  using assms by (auto simp: makeHostfile_def split: sum.splits)

lemma schedule_sched_inv:
  assumes "schedule ps tot = Inr (st, rep)" "wf_pools ps"
  shows "sched_inv ps st"
  using assms(1) unfolding schedule_def
  by (rule roundLoop_sched_inv) (use assms(2) in \<open>auto intro: sched_inv_init\<close>)

text \<open>Every Set of a Server in a round carries its own id and the pool id of the array
  index the Server is filed under.\<close>

lemma round_server_sets:
  assumes g: "getInfra parse info = Inr (ps, nsrv)" and r: "schedule ps nsrv = Inr (st, rep)"
    and ir: "inRound st i pid e s" and x: "x \<in> set (Sets s)"
  shows "ID (snd x) = fst x \<and> 0 \<le> sint (Pool (snd x)) \<and> nat (sint (Pool (snd x))) = pid"
proof -
  note wf = getInfra_wf(1) [OF g]
  note inv = schedule_sched_inv [OF r wf]
  from sched_invD(4) [OF inv ir] obtain pk where pk: "poolSlot pk = Some pid"
    and sa: "serverAt (ss_pools st) pk e = Some s" by blast
  from inv wf sa obtain s0 where s0: "serverAt ps pk e = Some s0"
    and ss: "s = s0\<lparr>Processed := inAnyRound st pk e\<rparr>"
    by (rule sched_inv_server)
  from ss x have x0: "x \<in> set (Sets s0)" by simp
  have "distinct (map fst (Sets s0))" using g s0 by (rule getInfra_server)
  with x0 have "map_of (Sets s0) (fst x) = Some (snd x)" by simp
  with s0 have v: "view ps pk e (fst x) = Some (snd x)" by (simp add: view_serverAt)
  note gv = getInfra_view [OF g v]
  from gv(2) pk have "poolSlot (Itoa (Pool (snd x))) = Some pid" by simp
  then have "0 \<le> sint (Pool (snd x)) \<and> nat (sint (Pool (snd x))) = pid"
    by (simp add: poolSlot_Itoa split: if_splits)
  with gv(1) show ?thesis by simp
qed

lemma makeHostfile_schedOf:
  "\<not> isl (makeHostfile slashParser info) \<Longrightarrow>
     makeHostfile slashParser info = Inr (schedOf info, reportOf info)"
  by (cases "makeHostfile slashParser info") (auto simp: schedOf_def reportOf_def)



lemma healStartSets_monitors:
  "monitors (fold (\<lambda>(si, x). healStartSet poolIndex si) sets hs) =
     monitors hs @ map (\<lambda>six. (poolIndex - 1, fst six - 1)) sets"
  by (induction sets arbitrary: hs) (auto simp: healStartSet_def)

lemma healServer_monitors:
  "monitors (healServer endpoint poolIndex v vv hs) =
     monitors hs @ serverMonitors endpoint poolIndex v vv"
  by (simp add: healServer_def serverMonitors_def healStartSets_monitors)

lemma healServers_monitors:
  "monitors (fold (\<lambda>(h, vv). healServer endpoint poolIndex v vv) srvs hs) =
     monitors hs @ concat (map (\<lambda>hvv. serverMonitors endpoint poolIndex v (snd hvv)) srvs)"
  by (induction srvs arbitrary: hs) (auto simp: healServer_monitors)

lemma healPool_monitors:
  assumes "Atoi (fst iv) \<noteq> None"
  shows "\<exists>hs'. healPool endpoint iv hs = Inr hs' \<and>
           monitors hs' = monitors hs @ poolMonitors endpoint iv"
  using assms by (auto simp: healPool_def poolMonitors_def healServers_monitors)

lemma healPools_monitors:
  assumes "\<forall>iv\<in>set ps. Atoi (fst iv) \<noteq> None"
  shows "\<exists>hs'. foldE (healPool endpoint) ps hs = Inr hs' \<and>
           monitors hs' = monitors hs @ concat (map (poolMonitors endpoint) ps)"
  using assms
proof (induction ps arbitrary: hs)
  case Nil
  then show ?case by simp
next
  case (Cons iv ps)
  from Cons.prems have "Atoi (fst iv) \<noteq> None" by simp
  from healPool_monitors [OF this, of endpoint hs] obtain hs1 where
    h1: "healPool endpoint iv hs = Inr hs1" "monitors hs1 = monitors hs @ poolMonitors endpoint iv"
    by blast
  from Cons.prems have "\<forall>iv\<in>set ps. Atoi (fst iv) \<noteq> None" by simp
  from Cons.IH [OF this, of hs1] obtain hs' where
    h2: "foldE (healPool endpoint) ps hs1 = Inr hs'"
      "monitors hs' = monitors hs1 @ concat (map (poolMonitors endpoint) ps)" by blast
  from h1 h2 show ?case by simp
qed

text \<open>With distinct keys, a loop that acts on the entry under one key only acts once.\<close>

lemma concat_single_key:
  assumes "distinct (map fst al)"
  shows "concat (map (\<lambda>kx. if k = fst kx then F (snd kx) else []) al) =
     (case map_of al k of None \<Rightarrow> [] | Some x \<Rightarrow> F x)"
  using assms
proof (induction al)
  case Nil
  then show ?case by simp
next
  case (Cons a al)
  show ?case
  proof (cases "k = fst a")
    case True
    with Cons.prems have "map_of al k = None" by (simp add: map_of_eq_None_iff)
    with Cons True show ?thesis by (cases a) simp
  next
    case False
    with Cons show ?thesis by (cases a) auto
  qed
qed

lemma distinct_set_monitors:
  assumes "distinct (map fst sets)"
  shows "distinct (map (\<lambda>six. (w - 1 :: go_int, fst six - 1 :: go_int)) sets)"
proof -
  have "map (\<lambda>six. (w - 1, fst six - 1)) sets = map (\<lambda>k. (w - 1, k - 1)) (map fst sets)"
    by simp
  moreover have "inj_on (\<lambda>k. (w - 1, k - 1)) (set (map fst sets))"
    by (rule inj_onI) simp
  ultimately show ?thesis using assms by (simp only: distinct_map)
qed

lemma poolMonitors_closed:
  assumes "goodPool iv"
  shows "poolMonitors endpoint iv =
     (if length (Servers (snd iv)) = 1
      then map (\<lambda>six. (the (Atoi (fst iv)) - 1, fst six - 1)) (Sets (snd (hd (Servers (snd iv)))))
      else (case map_of (Servers (snd iv)) endpoint of
              None \<Rightarrow> []
            | Some vv \<Rightarrow> map (\<lambda>six. (the (Atoi (fst iv)) - 1, fst six - 1)) (Sets vv)))"
proof (cases "length (Servers (snd iv)) = 1")
  case True
  then obtain hvv where "Servers (snd iv) = [hvv]"
    by (cases "Servers (snd iv)") auto
  with True show ?thesis by (simp add: poolMonitors_def serverMonitors_def)
next
  case False
  let ?F = "\<lambda>vv. map (\<lambda>six. (the (Atoi (fst iv)) - 1, fst six - 1)) (Sets vv)"
  have e: "map (\<lambda>hvv. serverMonitors endpoint (the (Atoi (fst iv))) (snd iv) (snd hvv)) (Servers (snd iv))
      = map (\<lambda>kx. if endpoint = fst kx then ?F (snd kx) else []) (Servers (snd iv))"
  proof (rule map_cong [OF refl])
    fix hvv assume "hvv \<in> set (Servers (snd iv))"
    with assms have "Endpoint (snd hvv) = fst hvv" by (simp add: goodPool_def goodServer_def)
    with False show "serverMonitors endpoint (the (Atoi (fst iv))) (snd iv) (snd hvv) =
        (if endpoint = fst hvv then ?F (snd hvv) else [])"
      by (simp add: serverMonitors_def)
  qed
  have d: "distinct (map fst (Servers (snd iv)))" using assms by (simp add: goodPool_def)
  have "poolMonitors endpoint iv =
      concat (map (\<lambda>kx. if endpoint = fst kx then ?F (snd kx) else []) (Servers (snd iv)))"
    unfolding poolMonitors_def e ..
  also have "\<dots> = (case map_of (Servers (snd iv)) endpoint of None \<Rightarrow> [] | Some vv \<Rightarrow> ?F vv)"
    using d by (rule concat_single_key)
  finally show ?thesis using False by simp
qed

lemma poolMonitors_distinct:
  assumes "goodPool iv"
  shows "distinct (poolMonitors endpoint iv)"
proof -
  have d: "distinct (map fst (Sets vv))" if "(h, vv) \<in> set (Servers (snd iv))" for h vv
    using assms that by (force simp: goodPool_def goodServer_def)
  show ?thesis
  proof (cases "length (Servers (snd iv)) = 1")
    case True
    then obtain hvv where s: "Servers (snd iv) = [hvv]"
      by (cases "Servers (snd iv)") auto
    then have "distinct (map fst (Sets (snd hvv)))" using d [of "fst hvv" "snd hvv"] by simp
    then show ?thesis
      unfolding poolMonitors_closed [OF assms] using True s
      by (simp add: distinct_set_monitors)
  next
    case False
    show ?thesis
    proof (cases "map_of (Servers (snd iv)) endpoint")
      case None
      with False show ?thesis unfolding poolMonitors_closed [OF assms] by simp
    next
      case (Some vv)
      then have "(endpoint, vv) \<in> set (Servers (snd iv))" by (rule map_of_SomeD)
      then have "distinct (map fst (Sets vv))" by (rule d)
      with False Some show ?thesis
        unfolding poolMonitors_closed [OF assms] by (simp add: distinct_set_monitors)
    qed
  qed
qed

lemma poolMonitors_fst:
  "x \<in> set (poolMonitors endpoint iv) \<Longrightarrow> fst x = the (Atoi (fst iv)) - 1"
  by (auto simp: poolMonitors_def serverMonitors_def split: if_splits)

lemma poolMonitors_mem:
  assumes "goodPool iv"
  shows "(p, s) \<in> set (poolMonitors endpoint iv) \<longleftrightarrow>
     (\<exists>h vv. map_of (Servers (snd iv)) h = Some vv \<and>
        (endpoint = h \<or> length (Servers (snd iv)) = 1) \<and>
        fst iv = Itoa (p + 1) \<and> map_of (Sets vv) (s + 1) \<noteq> None)"
proof -
  from assms obtain w where w: "fst iv = Itoa w" by (auto simp: goodPool_def)
  then have aw: "the (Atoi (fst iv)) = w" by (simp add: Atoi_Itoa)
  have dk: "distinct (map fst (Servers (snd iv)))" using assms by (simp add: goodPool_def)
  have gs: "Endpoint vv = h \<and> distinct (map fst (Sets vv))" if "(h, vv) \<in> set (Servers (snd iv))" for h vv
    using assms that by (force simp: goodPool_def goodServer_def)
  have pw: "p = w - 1 \<longleftrightarrow> fst iv = Itoa (p + 1)"
    by (auto simp: w Itoa_inj)
  have ms: "(\<exists>six\<in>set (Sets vv). s = fst six - 1) \<longleftrightarrow> map_of (Sets vv) (s + 1) \<noteq> None" for vv
  proof
    assume "\<exists>six\<in>set (Sets vv). s = fst six - 1"
    then obtain six where "six \<in> set (Sets vv)" "fst six = s + 1" by auto
    then have "s + 1 \<in> fst ` set (Sets vv)" by force
    then show "map_of (Sets vv) (s + 1) \<noteq> None" by (simp add: map_of_eq_None_iff)
  next
    assume "map_of (Sets vv) (s + 1) \<noteq> None"
    then obtain x where "map_of (Sets vv) (s + 1) = Some x" by auto
    then have "(s + 1, x) \<in> set (Sets vv)" by (rule map_of_SomeD)
    then show "\<exists>six\<in>set (Sets vv). s = fst six - 1" by force
  qed
  have "(p, s) \<in> set (poolMonitors endpoint iv) \<longleftrightarrow>
      (\<exists>hvv\<in>set (Servers (snd iv)). (endpoint = Endpoint (snd hvv) \<or> length (Servers (snd iv)) = 1) \<and>
          p = w - 1 \<and> (\<exists>six\<in>set (Sets (snd hvv)). s = fst six - 1))"
    by (auto simp: poolMonitors_def serverMonitors_def aw split: if_splits)
  also have "\<dots> \<longleftrightarrow> (\<exists>h vv. map_of (Servers (snd iv)) h = Some vv \<and>
        (endpoint = h \<or> length (Servers (snd iv)) = 1) \<and>
        fst iv = Itoa (p + 1) \<and> map_of (Sets vv) (s + 1) \<noteq> None)"
    (is "?L \<longleftrightarrow> ?R")
  proof
    assume ?L
    then obtain hvv where a: "hvv \<in> set (Servers (snd iv))"
      "endpoint = Endpoint (snd hvv) \<or> length (Servers (snd iv)) = 1" "p = w - 1"
      "\<exists>six\<in>set (Sets (snd hvv)). s = fst six - 1" by blast
    from a(1) dk have m: "map_of (Servers (snd iv)) (fst hvv) = Some (snd hvv)" by simp
    from a(1) gs [of "fst hvv" "snd hvv"] have "Endpoint (snd hvv) = fst hvv" by simp
    with a m pw ms show ?R by metis
  next
    assume ?R
    then obtain h vv where b: "map_of (Servers (snd iv)) h = Some vv"
      "endpoint = h \<or> length (Servers (snd iv)) = 1" "fst iv = Itoa (p + 1)"
      "map_of (Sets vv) (s + 1) \<noteq> None" by blast
    from b(1) have m: "(h, vv) \<in> set (Servers (snd iv))" by (rule map_of_SomeD)
    with gs have "Endpoint vv = h" by blast
    with b m pw ms show ?L by force
  qed
  finally show ?thesis .
qed

lemma allMonitors_distinct:
  assumes "distinct (map fst ps)" "\<forall>iv\<in>set ps. goodPool iv"
  shows "distinct (concat (map (poolMonitors endpoint) ps))"
  using assms
proof (induction ps)
  case Nil
  then show ?case by simp
next
  case (Cons iv ps)
  from Cons.prems obtain w where w: "fst iv = Itoa w" by (auto simp: goodPool_def)
  have dj: "set (poolMonitors endpoint iv) \<inter> set (poolMonitors endpoint iv') = {}"
    if "iv' \<in> set ps" for iv'
  proof -
    from Cons.prems that obtain w' where w': "fst iv' = Itoa w'" by (auto simp: goodPool_def)
    from Cons.prems(1) that have "fst iv \<noteq> fst iv'" by auto
    with w w' have "w \<noteq> w'" by auto
    then have "the (Atoi (fst iv)) - 1 \<noteq> the (Atoi (fst iv')) - 1"
      by (simp add: w w' Atoi_Itoa)
    then show ?thesis
      using poolMonitors_fst [of _ endpoint iv] poolMonitors_fst [of _ endpoint iv'] by fastforce
  qed
  have "distinct (poolMonitors endpoint iv)"
    using Cons.prems by (simp add: poolMonitors_distinct)
  moreover have "distinct (concat (map (poolMonitors endpoint) ps))"
    using Cons by simp
  ultimately show ?case using dj by auto
qed

lemma getInfra_goodPools:
  assumes "getInfra parse info = Inr (ps, nsrv)"
  shows "distinct (map fst ps)" and "\<forall>iv\<in>set ps. goodPool iv"
proof -
  note wf = getInfra_wf(1) [OF assms]
  show d: "distinct (map fst ps)" using wf by (simp add: wf_pools_def)
  show "\<forall>iv\<in>set ps. goodPool iv"
  proof
    fix iv assume "iv \<in> set ps"
    with d have m: "map_of ps (fst iv) = Some (snd iv)" by simp
    with wf have a: "distinct (map fst (Servers (snd iv)))" "\<exists>w. fst iv = Itoa w"
      unfolding wf_pools_def by blast+
    have "goodServer hvv" if "hvv \<in> set (Servers (snd iv))" for hvv
    proof -
      from that a(1) have "map_of (Servers (snd iv)) (fst hvv) = Some (snd hvv)" by simp
      with m have sa: "serverAt ps (fst iv) (fst hvv) = Some (snd hvv)" by (simp add: serverAt_def)
      with wf have "Endpoint (snd hvv) = fst hvv" unfolding wf_pools_def by blast
      moreover have "distinct (map fst (Sets (snd hvv)))" using assms sa by (rule getInfra_server)
      ultimately show ?thesis by (simp add: goodServer_def)
    qed
    with a show "goodPool iv" by (simp add: goodPool_def)
  qed
qed

text \<open>The invariant rule for one pool and for one pass over the pools, where making the
  round map and every step know the pool key and its array index.\<close>

lemma schedulePool_invariant_ctx:
  assumes run: "schedulePool i pkey st = Inr st'" and init: "I st"
    and mk: "\<And>pid st. I st \<Longrightarrow> poolSlot pkey = Some pid \<Longrightarrow> I (makeRound i pid st)"
    and step: "\<And>pid skey st st'. I st \<Longrightarrow> poolSlot pkey = Some pid \<Longrightarrow>
          rebootRounds st i pid \<noteq> None \<Longrightarrow>
          scheduleServer i pid pkey skey st = Inr st' \<Longrightarrow> I st'"
  shows "I st'"
proof -
  from run obtain pidw v where a: "Atoi pkey = Some pidw" "0 \<le> sint pidw" "sint pidw < int roundsLen"
    and v: "map_of (ss_pools st) pkey = Some v"
    and f: "foldE (scheduleServer i (nat (sint pidw)) pkey) (stringKeysSorted (Servers v))
        (makeRound i (nat (sint pidw)) st) = Inr st'"
    by (rule schedulePool_cases)
  note sl = poolSlot_context [OF a]
  let ?J = "\<lambda>st. I st \<and> rebootRounds st i (nat (sint pidw)) \<noteq> None"
  have "?J st'"
  proof (rule foldE_inv [where I = ?J, OF f])
    show "?J (makeRound i (nat (sint pidw)) st)"
      using mk [OF init sl] by (simp add: rebootRounds_makeRound)
  next
    fix x s s'
    assume "?J s" and r: "scheduleServer i (nat (sint pidw)) pkey x s = Inr s'"
    then show "?J s'"
      using step [OF _ sl _ r] scheduleServer_rounds_mono [OF r] by blast
  qed
  then show ?thesis ..
qed

lemma pass_invariant_ctx:
  assumes run: "foldE (schedulePool i) xs st = Inr st'" and init: "I st"
    and mk: "\<And>pkey pid st. I st \<Longrightarrow> pkey \<in> set xs \<Longrightarrow> poolSlot pkey = Some pid \<Longrightarrow>
          I (makeRound i pid st)"
    and step: "\<And>pkey pid skey st st'. I st \<Longrightarrow> pkey \<in> set xs \<Longrightarrow> poolSlot pkey = Some pid \<Longrightarrow>
          rebootRounds st i pid \<noteq> None \<Longrightarrow>
          scheduleServer i pid pkey skey st = Inr st' \<Longrightarrow> I st'"
  shows "I st'"
proof (rule foldE_inv [where I = I, OF run init])
  fix pkey s s'
  assume p: "pkey \<in> set xs" and i: "I s" and r: "schedulePool i pkey s = Inr s'"
  show "I s'"
  proof (rule schedulePool_invariant_ctx [where I = I, OF r i])
    show "I (makeRound i pid st)" if "I st" "poolSlot pkey = Some pid" for pid st
      using mk [OF that(1) p that(2)] .
    show "I st'" if "I st" "poolSlot pkey = Some pid" "rebootRounds st i pid \<noteq> None"
      "scheduleServer i pid pkey skey st = Inr st'" for pid skey st st'
      using step [OF that(1) p that(2-4)] .
  qed
qed

lemma pass_sched_inv:
  assumes "foldE (schedulePool i) xs st = Inr st'" "sched_inv ps st" "wf_pools ps"
  shows "sched_inv ps st'"
  using assms(1,2)
proof (rule pass_invariant_ctx [where I = "sched_inv ps"])
  show "sched_inv ps (makeRound i pid st)" if "sched_inv ps st" for pid st
    using that by (rule sched_inv_makeRound)
  show "sched_inv ps st'" if "sched_inv ps st" "poolSlot pkey = Some pid"
    "scheduleServer i pid pkey skey st = Inr st'" for pkey pid skey st st'
    using sched_inv_step [OF that(3) that(1) assms(3) that(2)] .
qed

text \<open>What a step never undoes: a key of \<open>unhealthy\<close>, an entry of a round.\<close>

lemma unhealthy_keys_step:
  assumes "scheduleServer i pid pkey skey st = Inr st'" "h \<in> fst ` set (unhealthy st)"
  shows "h \<in> fst ` set (unhealthy st')"
  using assms by (cases rule: scheduleServer_cases) (auto simp: dom_update)

lemma slotHas_step:
  assumes "scheduleServer i pid pkey skey st = Inr st'" "slotHas st j p e"
  shows "slotHas st' j p e"
  using assms(1)
proof (cases rule: scheduleServer_cases)
  case (place v s round)
  with assms(2) show ?thesis by (simp add: placeServer_slotHas)
qed (use assms(2) in auto)

lemma unhealthy_keys_pass:
  assumes "foldE (schedulePool i) xs st = Inr st'" "h \<in> fst ` set (unhealthy st)"
  shows "h \<in> fst ` set (unhealthy st')"
  using assms
  by (rule pass_invariant_ctx [where I = "\<lambda>st. h \<in> fst ` set (unhealthy st)"])
     (auto intro: unhealthy_keys_step)

lemma slotHas_pass:
  assumes "foldE (schedulePool i) xs st = Inr st'" "slotHas st j p e"
  shows "slotHas st' j p e"
  using assms
  by (rule pass_invariant_ctx [where I = "\<lambda>st. slotHas st j p e"])
     (auto intro: slotHas_step)

lemma unhealthy_keys_rounds:
  assumes "roundLoop k i poolss tot st = Inr (st', rep)" "h \<in> fst ` set (unhealthy st)"
  shows "h \<in> fst ` set (unhealthy st')"
  using assms
  by (rule roundLoop_invariant [where I = "\<lambda>st. h \<in> fst ` set (unhealthy st)"])
     (auto intro: unhealthy_keys_step)

lemma slotHas_rounds:
  assumes "roundLoop k i poolss tot st = Inr (st', rep)" "slotHas st j p e"
  shows "slotHas st' j p e"
  using assms
  by (rule roundLoop_invariant [where I = "\<lambda>st. slotHas st j p e"])
     (auto intro: slotHas_step)

lemma scheduleServer_place:
  assumes "map_of (ss_pools st) pkey = Some v" "map_of (Servers v) skey = Some s"
    "\<not> Processed s" "areAllSetsOK s" "rebootRounds st i pid = Some round"
    "map_of round (Endpoint s) = None" "\<not> conflictsWith round s"
  shows "scheduleServer i pid pkey skey st = Inr (placeServer i pid pkey skey v s round st)"
  using assms by (simp add: scheduleServer_def)

lemma stringKeysSorted_set [simp]: "set (stringKeysSorted m) = fst ` set m"
  by (simp add: stringKeysSorted_def)

lemma sched_inv_keys:
  assumes "sched_inv ps st" "map_of (ss_pools st) pk = Some v"
  obtains v0 where "map_of ps pk = Some v0" "map fst (Servers v) = map fst (Servers v0)"
  using sched_invD(2) [OF assms(1), of pk] assms(2) by (cases "map_of ps pk") auto

lemma fresh_slots:
  assumes "foldE (schedulePool i) xs st = Inr st'" "\<forall>j p. rebootRounds st j p = None"
    "rebootRounds st' j p \<noteq> None"
  shows "j = i \<and> (\<exists>x\<in>set xs. poolSlot x = Some p)"
proof -
  let ?I = "\<lambda>st. \<forall>j p. rebootRounds st j p \<noteq> None \<longrightarrow> j = i \<and> (\<exists>x\<in>set xs. poolSlot x = Some p)"
  have "?I st'"
    using assms(1)
  proof (rule pass_invariant_ctx [where I = ?I])
    show "?I st" using assms(2) by simp
    show "?I (makeRound i pid st)" if "?I st" "pkey \<in> set xs" "poolSlot pkey = Some pid"
      for pkey pid st
      using that by (auto simp: rebootRounds_makeRound split: if_splits)
    show "?I st'" if a: "?I st" "pkey \<in> set xs" "poolSlot pkey = Some pid"
      "rebootRounds st i pid \<noteq> None" "scheduleServer i pid pkey skey st = Inr st'"
      for pkey pid skey st st'
      using a(5)
    proof (cases rule: scheduleServer_cases)
      case (place v s round)
      show ?thesis
        unfolding place(8) using a(1-3) placeServer_rounds [OF place(5,6)]
        by (auto split: if_splits)
    qed (use a(1) in auto)
  qed
  with assms(3) show ?thesis by blast
qed

text \<open>A pool's visit puts every Server of the pool that has a Set with
  \<open>CanReboot = false\<close> into \<open>unhealthy\<close>.\<close>

lemma visit_unhealthy:
  assumes inv: "sched_inv ps st" and wf: "wf_pools ps"
    and run: "schedulePool i pk st = Inr st'"
    and sa: "serverAt ps pk h = Some s0" and bad: "\<not> areAllSetsOK s0"
  shows "h \<in> fst ` set (unhealthy st')"
proof -
  from run obtain pidw v where a: "Atoi pk = Some pidw" "0 \<le> sint pidw" "sint pidw < int roundsLen"
    and v: "map_of (ss_pools st) pk = Some v"
    and f: "foldE (scheduleServer i (nat (sint pidw)) pk) (stringKeysSorted (Servers v))
        (makeRound i (nat (sint pidw)) st) = Inr st'"
    by (rule schedulePool_cases)
  let ?pid = "nat (sint pidw)"
  note sl = poolSlot_context [OF a]
  from inv v obtain v0 where v0: "map_of ps pk = Some v0"
    and ks: "map fst (Servers v) = map fst (Servers v0)" by (rule sched_inv_keys)
  from sa v0 have "map_of (Servers v0) h = Some s0" by (simp add: serverAt_def)
  then have "h \<in> fst ` set (Servers v0)" by (force dest: map_of_SomeD)
  then have "h \<in> set (map fst (Servers v))" unfolding ks by simp
  then have "h \<in> set (stringKeysSorted (Servers v))" by simp
  then obtain us vs where sp: "stringKeysSorted (Servers v) = us @ h # vs"
    by (meson split_list)
  from f obtain st_u st_v where fu: "foldE (scheduleServer i ?pid pk) us (makeRound i ?pid st) = Inr st_u"
    and fh: "scheduleServer i ?pid pk h st_u = Inr st_v"
    and fv: "foldE (scheduleServer i ?pid pk) vs st_v = Inr st'"
    unfolding sp by (auto simp: foldE_append split: sum.splits)
  have iu: "sched_inv ps st_u"
    by (rule foldE_inv [where I = "sched_inv ps", OF fu sched_inv_makeRound [OF inv]])
       (rule sched_inv_step [OF _ _ wf sl])
  have hv: "h \<in> fst ` set (unhealthy st_v)"
    using fh
  proof (cases rule: scheduleServer_cases)
    case (skip v s)
    then have s: "serverAt (ss_pools st_u) pk h = Some s" by (simp add: serverAt_def)
    from sched_inv_processed_ok [OF iu wf s skip(3)] have "areAllSetsOK s" by simp
    moreover from iu wf s have "areAllSetsOK s = areAllSetsOK s0"
      by (rule sched_inv_server) (use sa in simp)
    ultimately show ?thesis using bad by simp
  next
    case (unhealthy v s)
    then have s: "serverAt (ss_pools st_u) pk h = Some s" by (simp add: serverAt_def)
    from iu wf s have "Endpoint s = h" by (rule sched_inv_server)
    then show ?thesis by (simp add: unhealthy(5) dom_update)
  next
    case (wait v s)
    then have s: "serverAt (ss_pools st_u) pk h = Some s" by (simp add: serverAt_def)
    from iu wf s have "areAllSetsOK s = areAllSetsOK s0"
      by (rule sched_inv_server) (use sa in simp)
    with wait(4) bad show ?thesis by simp
  next
    case (place v s round)
    then have s: "serverAt (ss_pools st_u) pk h = Some s" by (simp add: serverAt_def)
    from iu wf s have "areAllSetsOK s = areAllSetsOK s0"
      by (rule sched_inv_server) (use sa in simp)
    with place(4) bad show ?thesis by simp
  qed
  show ?thesis
    by (rule foldE_inv [where I = "\<lambda>st. h \<in> fst ` set (unhealthy st)", OF fv hv])
       (rule unhealthy_keys_step)
qed

lemma pass_unhealthy:
  assumes inv: "sched_inv ps st" and wf: "wf_pools ps"
    and run: "foldE (schedulePool i) xs st = Inr st'" and pk: "pk \<in> set xs"
    and sa: "serverAt ps pk h = Some s0" and bad: "\<not> areAllSetsOK s0"
  shows "h \<in> fst ` set (unhealthy st')"
proof -
  from pk obtain us vs where sp: "xs = us @ pk # vs" by (meson split_list)
  from run obtain st_u st_v where fu: "foldE (schedulePool i) us st = Inr st_u"
    and fh: "schedulePool i pk st_u = Inr st_v"
    and fv: "foldE (schedulePool i) vs st_v = Inr st'"
    unfolding sp by (auto simp: foldE_append split: sum.splits)
  from pass_sched_inv [OF fu inv wf] have "sched_inv ps st_u" .
  from visit_unhealthy [OF this wf fh sa bad] have "h \<in> fst ` set (unhealthy st_v)" .
  with fv show ?thesis by (rule unhealthy_keys_pass)
qed

lemma roundsLen_Suc: "roundsLen = Suc 199"
  by (simp add: roundsLen_def)

lemma sle_of_nat_small:
  assumes "n < 2 ^ 63" "m < 2 ^ 63"
  shows "(of_nat n :: go_int) \<le>s of_nat m \<longleftrightarrow> n \<le> m"
  using assms by (simp add: word_sle_eq sint_of_nat_small)

text \<open>With at least one server, and fewer than \<open>2 ^ 63\<close> disk records, the first round runs.\<close>

lemma first_round:
  assumes g: "getInfra parse info = Inr (ps, nsrv)" and r: "schedule ps nsrv = Inr (st, rep)"
    and len: "length (iDisks info) < 2 ^ 63" and ne: "serverAt ps pk h = Some s"
  obtains st1 where "foldE (schedulePool 0) (stringKeysSorted ps) (sched_init ps) = Inr st1"
    "roundLoop 199 (Suc 0) (stringKeysSorted ps) nsrv st1 = Inr (st, rep)"
proof -
  note n = getInfra_wf(2,3) [OF g]
  from ne have "(pk, h) \<in> serverSet ps" by (simp add: serverSet_def)
  then have "card (serverSet ps) \<noteq> 0" using finite_serverSet by auto
  then have pos: "0 < card (serverSet ps)" by simp
  from n(2) len have sm: "card (serverSet ps) < 2 ^ 63" by simp
  have "\<not> nsrv \<le>s 0"
    using sle_of_nat_small [OF sm, of 0] pos by (simp add: n(1))
  then have neg: "\<not> nsrv \<le>s processed (sched_init ps)" by (simp add: sched_init_def)
  from r have "roundLoop (Suc 199) 0 (stringKeysSorted ps) nsrv (sched_init ps) = Inr (st, rep)"
    unfolding schedule_def roundsLen_Suc .
  with neg have c: "(case foldE (schedulePool 0) (stringKeysSorted ps) (sched_init ps) of
       Inl e \<Rightarrow> Inl e
     | Inr st' \<Rightarrow> roundLoop 199 (Suc 0) (stringKeysSorted ps) nsrv st') = Inr (st, rep)"
    by (simp only: roundLoop.simps if_False)
  show thesis
  proof (cases "foldE (schedulePool 0) (stringKeysSorted ps) (sched_init ps)")
    case (Inl e)
    with c show ?thesis by simp
  next
    case (Inr st1)
    with c have "roundLoop 199 (Suc 0) (stringKeysSorted ps) nsrv st1 = Inr (st, rep)" by simp
    with Inr show ?thesis by (rule that)
  qed
qed

lemma pool_key_visited:
  "map_of ps pk = Some v \<Longrightarrow> pk \<in> set (stringKeysSorted ps)"
  by (force dest: map_of_SomeD)

lemma serverAt_pool: "serverAt ps pk h = Some s \<Longrightarrow> \<exists>v. map_of ps pk = Some v"
  by (auto simp: serverAt_def split: option.splits)

lemma distinct_stringKeysSorted: "distinct (map fst m) \<Longrightarrow> distinct (stringKeysSorted m)"
  by (simp add: stringKeysSorted_def)

text \<open>A pool whose round map is still \<open>nil\<close> in every round, with a single Server whose
  Sets can all be rebooted: the visit of the pool places the Server.\<close>

lemma visit_sole:
  assumes inv: "sched_inv ps st" and wf: "wf_pools ps"
    and run: "schedulePool i pk st = Inr st'"
    and pool: "map_of ps pk = Some v0" and sole: "Servers v0 = [(h, s0)]"
    and ok: "areAllSetsOK s0" and slot: "poolSlot pk = Some pid"
    and fresh: "\<forall>j. rebootRounds st j pid = None"
  shows "inRound st' i pid h (s0\<lparr>Processed := True\<rparr>)"
proof -
  from run obtain pidw v where a: "Atoi pk = Some pidw" "0 \<le> sint pidw" "sint pidw < int roundsLen"
    and v: "map_of (ss_pools st) pk = Some v"
    and f: "foldE (scheduleServer i (nat (sint pidw)) pk) (stringKeysSorted (Servers v))
        (makeRound i (nat (sint pidw)) st) = Inr st'"
    by (rule schedulePool_cases)
  from poolSlot_context [OF a] slot have pid: "nat (sint pidw) = pid" by simp
  from inv v obtain v1 where "map_of ps pk = Some v1"
    and "map fst (Servers v) = map fst (Servers v1)" by (rule sched_inv_keys)
  with pool sole have ks: "map fst (Servers v) = [h]" by simp
  then have sk: "stringKeysSorted (Servers v) = [h]" by (simp add: stringKeysSorted_def)
  let ?sm = "makeRound i pid st"
  from f have fh: "scheduleServer i pid pk h ?sm = Inr st'"
    unfolding sk pid by (simp split: sum.splits)
  have s0: "serverAt ps pk h = Some s0" using pool sole by (simp add: serverAt_def)
  have nr: "\<not> inAnyRound st pk h"
    using slot fresh by (simp add: inAnyRound_def slotHas_def)
  from sched_invD(3) [OF inv, of pk h] s0 nr
  have sa: "serverAt (ss_pools st) pk h = Some (s0\<lparr>Processed := False\<rparr>)" by simp
  from wf s0 have e: "Endpoint s0 = h" and np: "\<not> Processed s0" by (auto simp: wf_pools_def)
  from np have eq: "s0\<lparr>Processed := False\<rparr> = s0" by simp
  from sa v have m: "map_of (Servers v) h = Some s0" by (simp add: serverAt_def eq)
  have rr: "rebootRounds ?sm i pid = Some []"
    using fresh by (simp add: rebootRounds_makeRound)
  have "scheduleServer i pid pk h ?sm = Inr (placeServer i pid pk h v s0 [] ?sm)"
    by (rule scheduleServer_place) (use v m np ok rr in simp_all)
  with fh have st': "st' = placeServer i pid pk h v s0 [] ?sm" by simp
  show ?thesis
    unfolding st' using placeServer_inRound [OF rr, of s0 pk h v i pid h "s0\<lparr>Processed := True\<rparr>"] e
    by simp
qed

lemma inRound_step:
  assumes "scheduleServer i pid pkey skey st = Inr st'" "inRound st j p e x"
  shows "inRound st' j p e x"
  using assms(1)
proof (cases rule: scheduleServer_cases)
  case (place v s round)
  with assms(2) show ?thesis by (simp add: placeServer_inRound)
qed (use assms(2) in auto)

lemma inRound_pass:
  assumes "foldE (schedulePool i) xs st = Inr st'" "inRound st j p e x"
  shows "inRound st' j p e x"
  using assms
  by (rule pass_invariant_ctx [where I = "\<lambda>st. inRound st j p e x"])
     (auto intro: inRound_step)

lemma inRound_rounds:
  assumes "roundLoop k i poolss tot st = Inr (st', rep)" "inRound st j p e x"
  shows "inRound st' j p e x"
  using assms
  by (rule roundLoop_invariant [where I = "\<lambda>st. inRound st j p e x"])
     (auto intro: inRound_step)

lemma pass_sole:
  assumes wf: "wf_pools ps"
    and run: "foldE (schedulePool i) (stringKeysSorted ps) (sched_init ps) = Inr st'"
    and pool: "map_of ps pk = Some v0" and sole: "Servers v0 = [(h, s0)]"
    and ok: "areAllSetsOK s0"
  shows "\<exists>pid. poolSlot pk = Some pid \<and> inRound st' i pid h (s0\<lparr>Processed := True\<rparr>)"
proof -
  from pool have "pk \<in> set (stringKeysSorted ps)" by (rule pool_key_visited)
  then obtain us vs where sp: "stringKeysSorted ps = us @ pk # vs" by (meson split_list)
  from wf have "distinct (stringKeysSorted ps)"
    by (simp add: wf_pools_def distinct_stringKeysSorted)
  then have nu: "pk \<notin> set us" unfolding sp by simp
  from run obtain st_u st_v where fu: "foldE (schedulePool i) us (sched_init ps) = Inr st_u"
    and fh: "schedulePool i pk st_u = Inr st_v"
    and fv: "foldE (schedulePool i) vs st_v = Inr st'"
    unfolding sp by (auto simp: foldE_append split: sum.splits)
  from pass_sched_inv [OF fu sched_inv_init [OF wf] wf] have iu: "sched_inv ps st_u" .
  from fh obtain pid where slot: "poolSlot pk = Some pid"
    by (auto elim!: schedulePool_cases simp: poolSlot_context)
  have s0: "serverAt ps pk h = Some s0" using pool sole by (simp add: serverAt_def)
  have fresh: "rebootRounds st_u j pid = None" for j
  proof (rule ccontr)
    assume "rebootRounds st_u j pid \<noteq> None"
    with fresh_slots [OF fu, of j pid] obtain x where x: "x \<in> set us" "poolSlot x = Some pid"
      by (auto simp: sched_init_def)
    from x(1) have "x \<in> fst ` set ps"
      using sp stringKeysSorted_set [of ps] by (metis UnCI set_append)
    then obtain vx where vx: "map_of ps x = Some vx"
      by (metis map_of_eq_None_iff not_None_eq)
    from wf vx have "\<exists>w. x = Itoa w" unfolding wf_pools_def by blast
    then obtain wx where wx: "x = Itoa wx" ..
    from wf pool have "\<exists>w. pk = Itoa w" unfolding wf_pools_def by blast
    then obtain w where w: "pk = Itoa w" ..
    from poolSlot_inj [of wx pid w] x(2) slot have "x = pk" by (simp add: wx w)
    with x(1) nu show False by simp
  qed
  from visit_sole [OF iu wf fh pool sole ok slot] fresh
  have "inRound st_v i pid h (s0\<lparr>Processed := True\<rparr>)" by simp
  with fv have "inRound st' i pid h (s0\<lparr>Processed := True\<rparr>)" by (rule inRound_pass)
  with slot show ?thesis by blast
qed

lemma foldE_total:
  assumes "I s" and "\<And>x s. x \<in> set xs \<Longrightarrow> I s \<Longrightarrow> \<exists>s'. f x s = Inr s' \<and> I s'"
  shows "\<exists>s'. foldE f xs s = Inr s' \<and> I s'"
  using assms
proof (induction xs arbitrary: s)
  case Nil
  then show ?case by simp
next
  case (Cons x xs)
  from Cons.prems(2) [of x s] Cons.prems(1) obtain s1 where s1: "f x s = Inr s1" "I s1" by auto
  have "\<exists>s'. foldE f xs s1 = Inr s' \<and> I s'"
    by (rule Cons.IH [OF s1(2)]) (use Cons.prems(2) in auto)
  with s1 show ?case by simp
qed

lemma scheduleServer_total:
  assumes "map_of (ss_pools st) pkey = Some v" "skey \<in> fst ` set (Servers v)"
    "rebootRounds st i pid \<noteq> None"
  shows "\<exists>st'. scheduleServer i pid pkey skey st = Inr st'"
proof -
  from assms(2) obtain s where s: "map_of (Servers v) skey = Some s"
    by (metis map_of_eq_None_iff not_None_eq)
  from assms(3) obtain round where r: "rebootRounds st i pid = Some round" by auto
  show ?thesis
    using assms(1) s r by (simp add: scheduleServer_def Let_def)
qed

lemma sched_inv_pool:
  assumes "sched_inv ps st" "pkey \<in> fst ` set ps"
  obtains v v0 where "map_of (ss_pools st) pkey = Some v" "map_of ps pkey = Some v0"
    "map fst (Servers v) = map fst (Servers v0)"
proof -
  from assms(2) sched_invD(1) [OF assms(1)] have "pkey \<in> fst ` set (ss_pools st)"
    by (metis list.set_map)
  then obtain v where v: "map_of (ss_pools st) pkey = Some v"
    by (metis map_of_eq_None_iff not_None_eq)
  from assms(1) v obtain v0 where "map_of ps pkey = Some v0"
    "map fst (Servers v) = map fst (Servers v0)" by (rule sched_inv_keys)
  with v show thesis by (rule that)
qed

lemma schedulePool_total:
  assumes inv: "sched_inv ps st" and wf: "wf_pools ps"
    and key: "pkey \<in> fst ` set ps" and slot: "poolSlot pkey \<noteq> None"
  shows "\<exists>st'. schedulePool i pkey st = Inr st' \<and> sched_inv ps st'"
proof -
  from slot obtain pidw where a: "Atoi pkey = Some pidw" "0 \<le> sint pidw" "sint pidw < int roundsLen"
    by (auto simp: poolSlot_def split: option.splits if_splits)
  let ?pid = "nat (sint pidw)"
  note sl = poolSlot_context [OF a]
  from inv key obtain v v0 where v: "map_of (ss_pools st) pkey = Some v"
    and v0: "map_of ps pkey = Some v0" and ks: "map fst (Servers v) = map fst (Servers v0)"
    by (rule sched_inv_pool)
  let ?I = "\<lambda>s. sched_inv ps s \<and> rebootRounds s i ?pid \<noteq> None"
  have "\<exists>st'. foldE (scheduleServer i ?pid pkey) (stringKeysSorted (Servers v))
        (makeRound i ?pid st) = Inr st' \<and> ?I st'"
  proof (rule foldE_total [where I = ?I])
    show "?I (makeRound i ?pid st)"
      using sched_inv_makeRound [OF inv] by (simp add: rebootRounds_makeRound)
  next
    fix x s
    assume x: "x \<in> set (stringKeysSorted (Servers v))" and i: "?I s"
    from i key obtain v' v0' where v': "map_of (ss_pools s) pkey = Some v'"
      and "map_of ps pkey = Some v0'" and "map fst (Servers v') = map fst (Servers v0')"
      by (auto elim: sched_inv_pool)
    with v0 ks have "map fst (Servers v') = map fst (Servers v)" by simp
    then have "fst ` set (Servers v') = fst ` set (Servers v)" by (metis list.set_map)
    with x have "x \<in> fst ` set (Servers v')" by simp
    from scheduleServer_total [OF v' this, of i ?pid] i obtain s' where
      s': "scheduleServer i ?pid pkey x s = Inr s'" by blast
    from sched_inv_step [OF s' _ wf sl] i have "sched_inv ps s'" by simp
    moreover from scheduleServer_rounds_mono [OF s'] i have "rebootRounds s' i ?pid \<noteq> None" by simp
    ultimately show "\<exists>s'. scheduleServer i ?pid pkey x s = Inr s' \<and> ?I s'" using s' by blast
  qed
  then show ?thesis
    using a v by (auto simp: schedulePool_def)
qed

lemma roundLoop_total:
  assumes inv: "sched_inv ps st" and wf: "wf_pools ps"
    and keys: "set poolss \<subseteq> fst ` set ps" and slots: "\<forall>pk\<in>set poolss. poolSlot pk \<noteq> None"
  shows "\<exists>st' rep. roundLoop k i poolss tot st = Inr (st', rep)"
  using inv
proof (induction k arbitrary: i st)
  case 0
  then show ?case by simp
next
  case (Suc k)
  show ?case
  proof (cases "tot \<le>s processed st")
    case True
    then show ?thesis by simp
  next
    case False
    have "\<exists>st1. foldE (schedulePool i) poolss st = Inr st1 \<and> sched_inv ps st1"
      by (rule foldE_total [where I = "sched_inv ps", OF Suc.prems])
         (use keys slots wf in \<open>auto intro!: schedulePool_total\<close>)
    then obtain st1 where s1: "foldE (schedulePool i) poolss st = Inr st1" "sched_inv ps st1"
      by blast
    from Suc.IH [OF s1(2), of "Suc i"] s1(1) False show ?thesis by simp
  qed
qed

text \<open>The scheduler returns, whenever every pool key is an index into the array of rounds.\<close>

lemma schedule_total:
  assumes "wf_pools ps" "\<forall>pk\<in>fst ` set ps. poolSlot pk \<noteq> None"
  shows "\<exists>st rep. schedule ps tot = Inr (st, rep)"
  unfolding schedule_def
  by (rule roundLoop_total [OF sched_inv_init [OF assms(1)] assms(1)]) (use assms(2) in auto)

lemma makeHostfile_total:
  assumes "getInfra parse info = Inr (ps, nsrv)" "\<forall>pk\<in>fst ` set ps. poolSlot pk \<noteq> None"
  shows "\<exists>st rep. makeHostfile parse info = Inr (st, rep)"
  using schedule_total [OF getInfra_wf(1) [OF assms(1)] assms(2), of nsrv] assms(1)
  by (simp add: makeHostfile_def)

lemma makeHostfile_schedOf_total:
  assumes "getInfra slashParser info = Inr (ps, nsrv)" "\<forall>pk\<in>fst ` set ps. poolSlot pk \<noteq> None"
  shows "makeHostfile slashParser info = Inr (schedOf info, reportOf info)"
proof -
  from makeHostfile_total [OF assms] have "\<not> isl (makeHostfile slashParser info)" by auto
  then show ?thesis by (rule makeHostfile_schedOf)
qed

lemma makeHostfile_schedule:
  assumes "getInfra parse info = Inr (ps, nsrv)" "makeHostfile parse info = Inr (st, rep)"
  shows "schedule ps nsrv = Inr (st, rep)"
  using assms by (simp add: makeHostfile_def)

lemma roundLoop_report:
  assumes "roundLoop k i poolss tot st = Inr (st', Some r)"
  shows "r = (tot, processed st') \<and> tot \<le>s processed st'"
  using assms
proof (induction k arbitrary: i st)
  case 0
  then show ?case by simp
next
  case (Suc k)
  show ?case
  proof (cases "tot \<le>s processed st")
    case True
    with Suc.prems show ?thesis by auto
  next
    case False
    with Suc.prems obtain st1 where "roundLoop k (Suc i) poolss tot st1 = Inr (st', Some r)"
      by (auto split: sum.splits)
    then show ?thesis by (rule Suc.IH)
  qed
qed

lemma serverSet_sched_inv:
  assumes "sched_inv ps st"
  shows "serverSet (ss_pools st) = serverSet ps"
  using sched_invD(3) [OF assms] by (auto simp: serverSet_def)

lemma all_processed:
  assumes inv: "sched_inv ps st"
    and n: "nsrv = of_nat (card (serverSet ps))" and sm: "card (serverSet ps) < 2 ^ 63"
    and le: "nsrv \<le>s processed st"
  shows "processedSet (ss_pools st) = serverSet ps" and "processed st = nsrv"
proof -
  let ?S = "processedSet (ss_pools st)"
  have sub: "?S \<subseteq> serverSet ps"
    using processedSet_subset [of "ss_pools st"] serverSet_sched_inv [OF inv] by simp
  then have c: "card ?S \<le> card (serverSet ps)"
    using finite_serverSet by (simp add: card_mono)
  with sm have sm': "card ?S < 2 ^ 63" by simp
  from le have "card (serverSet ps) \<le> card ?S"
    unfolding n sched_invD(7) [OF inv] using sle_of_nat_small [OF sm sm'] by simp
  with c have e: "card ?S = card (serverSet ps)" by simp
  with sub show "?S = serverSet ps" using finite_serverSet by (simp add: card_subset_eq)
  show "processed st = nsrv" using e by (simp add: n sched_invD(7) [OF inv])
qed

lemma nonempty_map_of: "m \<noteq> [] \<Longrightarrow> \<exists>k x. map_of m k = Some x"
  by (cases m) (auto intro: exI [of _ "fst (hd m)"])

lemma failureFile_mem:
  assumes "sched_inv ps st" "wf_pools ps" "h \<in> fst ` set (unhealthy st)"
  shows "h \<in> set (failureFile st)"
proof -
  from assms(3) obtain x where x: "map_of (unhealthy st) h = Some x"
    by (metis map_of_eq_None_iff not_None_eq)
  from sched_invD(6) [OF assms(1) x] obtain pk where pk: "serverAt (ss_pools st) pk h = Some x"
    by blast
  from assms(1,2) pk have e: "Endpoint x = h" by (rule sched_inv_server)
  from x have "(h, x) \<in> set (unhealthy st)" by (rule map_of_SomeD)
  then have "Endpoint x \<in> set (failureFile st)" by (force simp: failureFile_def)
  with e show ?thesis by simp
qed

text \<open>A Server with a Set that cannot be rebooted, after a run of makeHostfile.\<close>

lemma unhealthy_server_outcome:
  assumes g: "getInfra parse info = Inr (ps, nsrv)" and m: "makeHostfile parse info = Inr (st, rep)"
    and len: "length (iDisks info) < 2 ^ 63"
    and sa: "serverAt ps pk h = Some s" and bad: "\<not> areAllSetsOK s"
  shows "h \<in> set (failureFile st)" and "\<not> inAnyRound st pk h" and "rep = None"
proof -
  note r = makeHostfile_schedule [OF g m]
  note wf = getInfra_wf(1) [OF g]
  note inv = schedule_sched_inv [OF r wf]
  from sa obtain v where pool: "map_of ps pk = Some v" by (auto dest: serverAt_pool)
  from first_round [OF g r len sa] obtain st1 where
    p0: "foldE (schedulePool 0) (stringKeysSorted ps) (sched_init ps) = Inr st1" and
    rest: "roundLoop 199 (Suc 0) (stringKeysSorted ps) nsrv st1 = Inr (st, rep)" by blast
  from pass_unhealthy [OF sched_inv_init [OF wf] wf p0 pool_key_visited [OF pool] sa bad]
  have "h \<in> fst ` set (unhealthy st1)" .
  with rest have "h \<in> fst ` set (unhealthy st)" by (rule unhealthy_keys_rounds)
  with inv wf show "h \<in> set (failureFile st)" by (rule failureFile_mem)
  show nr: "\<not> inAnyRound st pk h"
  proof
    assume ia: "inAnyRound st pk h"
    from sched_invD(3) [OF inv, of pk h] sa ia
    have s': "serverAt (ss_pools st) pk h = Some (s\<lparr>Processed := True\<rparr>)" by simp
    from sched_inv_processed_ok [OF inv wf s'] have "areAllSetsOK s" by simp
    with bad show False by simp
  qed
  show "rep = None"
  proof (rule ccontr)
    assume "rep \<noteq> None"
    then obtain x where x: "rep = Some x" by auto
    from r have "roundLoop roundsLen 0 (stringKeysSorted ps) nsrv (sched_init ps) = Inr (st, Some x)"
      by (simp add: schedule_def x)
    from roundLoop_report [OF this] have le: "nsrv \<le>s processed st" by simp
    from getInfra_wf(3) [OF g] len have sm: "card (serverSet ps) < 2 ^ 63" by simp
    from all_processed(1) [OF inv getInfra_wf(2) [OF g] sm le]
    have "(pk, h) \<in> processedSet (ss_pools st)" using sa by (simp add: serverSet_def)
    then obtain s' where s': "serverAt (ss_pools st) pk h = Some s'" "Processed s'"
      by (auto simp: processedSet_def)
    from inv wf s'(1) have "Processed s' = inAnyRound st pk h" by (rule sched_inv_server)
    with s'(2) nr show False by simp
  qed
qed

section \<open>The scheduler does not depend on the iteration order of the maps\<close>





lemma sameMap_Nil [simp]: "sameMap R [] []"
  by (simp add: sameMap_def)















section \<open>The servers of one round and one pool\<close>

lemma record_server:
  assumes g: "getInfra parse info = Inr (ps, nsrv)" and d: "d \<in> set (iDisks info)"
    and h: "urlHost parse d = Some h"
  obtains s where "serverAt ps (Itoa (mPoolIndex d + 1)) h = Some s" "mSetIndex d + 1 \<in> setIds s"
proof -
  let ?pk = "Itoa (mPoolIndex d + 1)" and ?sid = "mSetIndex d + 1"
  from g obtain st where a: "addDisks parse (Backend info) (iDisks info) init_state = Inr st"
    and ps: "ps = finishPools (st_setInfo st) (st_pools st)"
    by (rule getInfra_Inr)
  from h have iv: "inView parse ?pk h ?sid d" by (simp add: inView_def)
  from view_inv [OF a, of ?pk h ?sid, THEN conjunct1] iv d
  have "view (st_pools st) ?pk h ?sid \<noteq> None" by blast
  then have "view ps ?pk h ?sid \<noteq> None" by (simp add: ps view_finishPools)
  then obtain p s v where "map_of ps ?pk = Some p" "map_of (Servers p) h = Some s"
    "map_of (Sets s) ?sid = Some v"
    by (auto simp: view_def split: option.splits)
  then have "serverAt ps ?pk h = Some s" "?sid \<in> setIds s"
    by (auto simp: serverAt_def setIds_def dest: map_of_SomeD intro: rev_image_eqI)
  then show thesis by (rule that)
qed

lemma same_slot_disjoint:
  assumes r: "schedule ps nsrv = Inr (st, rep)"
    and "inRound st i pid e1 s1" "inRound st i pid e2 s2" "e1 \<noteq> e2"
  shows "setIds s1 \<inter> setIds s2 = {}"
proof -
  from schedule_slots_ok [OF r] have ok: "slots_ok st" .
  from assms(2,3) obtain m where m: "rebootRounds st i pid = Some m"
    "map_of m e1 = Some s1" "map_of m e2 = Some s2"
    by (auto simp: inRound_def split: option.splits)
  from m(2,3) have "(e1, s1) \<in> set m" "(e2, s2) \<in> set m" by (auto dest: map_of_SomeD)
  with assms(4) show ?thesis using ok m(1) unfolding slots_ok_def by fastforce
qed

lemma slot_server_has_set:
  assumes g: "getInfra parse info = Inr (ps, nsrv)" and r: "schedule ps nsrv = Inr (st, rep)"
    and d: "d \<in> set (iDisks info)" and h: "urlHost parse d = Some h"
    and sl: "poolSlot (Itoa (mPoolIndex d + 1)) = Some pid"
    and ir: "inRound st i pid h x"
  shows "mSetIndex d + 1 \<in> setIds x"
proof -
  let ?pk = "Itoa (mPoolIndex d + 1)"
  note wf = getInfra_wf(1) [OF g]
  note inv = schedule_sched_inv [OF r wf]
  from record_server [OF g d h] obtain s where s: "serverAt ps ?pk h = Some s"
    and sid: "mSetIndex d + 1 \<in> setIds s" by blast
  from sched_invD(4) [OF inv ir] obtain pk' where pk': "poolSlot pk' = Some pid"
    and sa: "serverAt (ss_pools st) pk' h = Some x" by blast
  from inv wf sa obtain s0 where s0: "serverAt ps pk' h = Some s0" and e: "setIds x = setIds s0"
    by (rule sched_inv_server)
  from s s0 have "serverAt ps ?pk h \<noteq> None" "serverAt ps pk' h \<noteq> None" by simp_all
  with wf have "?pk = pk'" using sl pk' by (rule wf_poolSlot_inj)
  with s s0 have "s0 = s" by simp
  with e sid show ?thesis by simp
qed

section \<open>The writes of a heal monitor\<close>







section \<open>Rounds that change nothing\<close>

lemma settled_cong:
  "unhealthy st = unhealthy st0 \<Longrightarrow> ss_pools st = ss_pools st0 \<Longrightarrow> settled st = settled st0"
  by (simp add: settled_def)

lemma settled_step:
  assumes "settled st" "scheduleServer i pid pk sk st = Inr st'"
  shows "st' = st"
  using assms(2)
proof (cases rule: scheduleServer_cases)
  case (unhealthy v s)
  from unhealthy(1,2) have "(pk, v) \<in> set (ss_pools st)" "(sk, s) \<in> set (Servers v)"
    by (auto dest: map_of_SomeD)
  with assms(1) unhealthy(3) have "map_of (unhealthy st) (Endpoint s) = Some s"
    by (force simp: settled_def list_all_iff)
  then have "AList.update (Endpoint s) s (unhealthy st) = unhealthy st"
    by (rule AList.update_triv)
  with unhealthy(5) show ?thesis by simp
next
  case (place v s round)
  from place(1,2) have "(pk, v) \<in> set (ss_pools st)" "(sk, s) \<in> set (Servers v)"
    by (auto dest: map_of_SomeD)
  with assms(1) place(3,4) show ?thesis
    by (force simp: settled_def list_all_iff)
qed

lemma roundLoop_split:
  "roundLoop (a + b) i poolss tot st =
     (case roundLoop a i poolss tot st of
        Inl e \<Rightarrow> Inl e
      | Inr (st1, rep) \<Rightarrow>
          (case rep of Some r \<Rightarrow> Inr (st1, Some r)
           | None \<Rightarrow> roundLoop b (i + a) poolss tot st1))"
proof (induction a arbitrary: i st)
  case 0
  then show ?case by simp
next
  case (Suc a)
  show ?case
  proof (cases "tot \<le>s processed st")
    case True
    then show ?thesis by simp
  next
    case False
    show ?thesis
    proof (cases "foldE (schedulePool i) poolss st")
      case (Inl e)
      with False show ?thesis by simp
    next
      case (Inr st1)
      have e: "Suc i + a = i + Suc a" by simp
      from False Inr Suc [of "Suc i" st1] show ?thesis unfolding e by simp
    qed
  qed
qed

lemma settled_rounds:
  assumes se: "settled st0" and run: "roundLoop k i poolss tot st0 = Inr (st', rep)"
  shows "unhealthy st' = unhealthy st0" and "ss_pools st' = ss_pools st0"
    and "processed st' = processed st0"
    and "\<And>j p. rebootRounds st' j p = rebootRounds st0 j p \<or>
           (rebootRounds st0 j p = None \<and> rebootRounds st' j p = Some [])"
proof -
  let ?I = "\<lambda>st. unhealthy st = unhealthy st0 \<and> ss_pools st = ss_pools st0 \<and>
     processed st = processed st0 \<and>
     (\<forall>j p. rebootRounds st j p = rebootRounds st0 j p \<or>
           (rebootRounds st0 j p = None \<and> rebootRounds st j p = Some []))"
  have "?I st'"
    using run
  proof (rule roundLoop_invariant [where I = ?I])
    show "?I st0" by simp
    show "?I (makeRound i pid st)" if a: "?I st" for i pid st
    proof (intro conjI allI)
      fix j p
      from a have "rebootRounds st j p = rebootRounds st0 j p \<or>
           (rebootRounds st0 j p = None \<and> rebootRounds st j p = Some [])" by blast
      then show "rebootRounds (makeRound i pid st) j p = rebootRounds st0 j p \<or>
           (rebootRounds st0 j p = None \<and> rebootRounds (makeRound i pid st) j p = Some [])"
        by (auto simp: rebootRounds_makeRound)
    qed (use a in simp_all)
    show "?I st'" if a: "?I st" and r: "scheduleServer i (nat (sint pidw)) pkey skey st = Inr st'"
      for i pidw pkey skey st st'
    proof -
      from a se have "settled st" by (simp add: settled_cong [of st st0])
      from this r have "st' = st" by (rule settled_step)
      with a show ?thesis by simp
    qed
  qed
  then show "unhealthy st' = unhealthy st0" "ss_pools st' = ss_pools st0"
    "processed st' = processed st0"
    "\<And>j p. rebootRounds st' j p = rebootRounds st0 j p \<or>
           (rebootRounds st0 j p = None \<and> rebootRounds st' j p = Some [])"
    by blast+
qed

lemma settled_files:
  assumes se: "settled st0" and run: "roundLoop k i poolss tot st0 = Inr (st', rep)"
  shows "failureFile st' = failureFile st0" and "roundFile st' j = roundFile st0 j"
    and "slotHas st' j p e = slotHas st0 j p e"
proof -
  note f = settled_rounds [OF se run]
  show "failureFile st' = failureFile st0" by (simp add: failureFile_def f(1))
  have s: "stringKeysSorted ([] :: (string \<times> Server) list) = []"
    by (simp add: stringKeysSorted_def)
  have "(case rebootRounds st' j pid of None \<Rightarrow> []
      | Some rv2 \<Rightarrow> concat (map (\<lambda>rvkey. case map_of rv2 rvkey of
                                  None \<Rightarrow> [] | Some sv \<Rightarrow> [Endpoint sv]) (stringKeysSorted rv2))) =
     (case rebootRounds st0 j pid of None \<Rightarrow> []
      | Some rv2 \<Rightarrow> concat (map (\<lambda>rvkey. case map_of rv2 rvkey of
                                  None \<Rightarrow> [] | Some sv \<Rightarrow> [Endpoint sv]) (stringKeysSorted rv2)))"
    for pid
    using f(4) [of j pid] by (auto simp: s)
  then show "roundFile st' j = roundFile st0 j" by (simp add: roundFile_def)
  show "slotHas st' j p e = slotHas st0 j p e"
    using f(4) [of j p] by (auto simp: slotHas_def)
qed

text \<open>When the state is settled after \<open>n\<close> rounds that did not take the early exit, the
  remaining rounds change nothing in what is written out, and the loop never takes the
  early exit.\<close>

lemma settled_final:
  assumes g: "getInfra slashParser info = Inr (ps, tot)"
    and sl: "\<forall>pk\<in>fst ` set ps. poolSlot pk \<noteq> None"
    and n: "n \<le> roundsLen" and ran: "ranRounds n info" and se: "settled (roundsOf n info)"
  shows "failureFile (schedOf info) = failureFile (roundsOf n info)"
    and "roundFile (schedOf info) j = roundFile (roundsOf n info) j"
    and "slotHas (schedOf info) j p e = slotHas (roundsOf n info) j p e"
    and "reportOf info = None"
    and "unhealthy (schedOf info) = unhealthy (roundsOf n info)"
proof -
  let ?ks = "stringKeysSorted ps"
  from g sl have m: "makeHostfile slashParser info = Inr (schedOf info, reportOf info)"
    by (rule makeHostfile_schedOf_total)
  from g m have "schedule ps tot = Inr (schedOf info, reportOf info)"
    by (rule makeHostfile_schedule)
  moreover from n have "roundsLen = n + (roundsLen - n)" by simp
  ultimately have r: "roundLoop (n + (roundsLen - n)) 0 ?ks tot (sched_init ps) =
      Inr (schedOf info, reportOf info)"
    by (simp add: schedule_def)
  from ran g have p: "roundLoop n 0 ?ks tot (sched_init ps) = Inr (roundsOf n info, None)"
    and np: "\<not> tot \<le>s processed (roundsOf n info)"
    by (auto simp: ranRounds_def roundsOf_def split: sum.splits)
  from r p have rest: "roundLoop (roundsLen - n) n ?ks tot (roundsOf n info) =
      Inr (schedOf info, reportOf info)"
    by (simp add: roundLoop_split)
  note f = settled_files [OF se rest] and q = settled_rounds [OF se rest]
  show "failureFile (schedOf info) = failureFile (roundsOf n info)" by (rule f(1))
  show "roundFile (schedOf info) j = roundFile (roundsOf n info) j" by (rule f(2))
  show "slotHas (schedOf info) j p e = slotHas (roundsOf n info) j p e" by (rule f(3))
  show "unhealthy (schedOf info) = unhealthy (roundsOf n info)" by (rule q(1))
  show "reportOf info = None"
  proof (cases "reportOf info")
    case None
    then show ?thesis .
  next
    case (Some x)
    with rest have "tot \<le>s processed (schedOf info)"
      using roundLoop_report [of "roundsLen - n" n ?ks tot "roundsOf n info" "schedOf info" x]
      by simp
    with q(3) np show ?thesis by simp
  qed
qed

section \<open>The files do not depend on the iteration order\<close>













section \<open>Every pending Server gets its round\<close>

lemma slot_made:
  assumes "foldE (schedulePool i) xs st = Inr st'" "rebootRounds st j p = None"
    "rebootRounds st' j p \<noteq> None"
  shows "j = i \<and> (\<exists>x\<in>set xs. poolSlot x = Some p)"
proof -
  let ?I = "\<lambda>st. rebootRounds st j p \<noteq> None \<longrightarrow> j = i \<and> (\<exists>x\<in>set xs. poolSlot x = Some p)"
  have "?I st'"
    using assms(1)
  proof (rule pass_invariant_ctx [where I = ?I])
    show "?I st" using assms(2) by simp
    show "?I (makeRound i pid st)" if "?I st" "pkey \<in> set xs" "poolSlot pkey = Some pid"
      for pkey pid st
      using that by (auto simp: rebootRounds_makeRound split: if_splits)
    show "?I st'" if a: "?I st" "pkey \<in> set xs" "poolSlot pkey = Some pid"
      "rebootRounds st i pid \<noteq> None" "scheduleServer i pid pkey skey st = Inr st'"
      for pkey pid skey st st'
      using a(5)
    proof (cases rule: scheduleServer_cases)
      case (place v s round)
      show ?thesis
        unfolding place(8) using a(1-3) placeServer_rounds [OF place(5,6)]
        by (auto split: if_splits)
    qed (use a(1) in auto)
  qed
  with assms(3) show ?thesis by blast
qed

lemma freshFrom_pass:
  assumes "foldE (schedulePool i) xs st = Inr st'" "freshFrom i st"
  shows "freshFrom (Suc i) st'"
  unfolding freshFrom_def
proof (intro allI impI)
  fix j p assume j: "Suc i \<le> j"
  with assms(2) have n: "rebootRounds st j p = None" by (simp add: freshFrom_def)
  show "rebootRounds st' j p = None"
  proof (rule ccontr)
    assume "rebootRounds st' j p \<noteq> None"
    from slot_made [OF assms(1) n this] j show False by simp
  qed
qed

lemma slot_untouched:
  assumes "foldE (schedulePool i) xs st = Inr st'" "\<forall>x\<in>set xs. poolSlot x \<noteq> Some p"
  shows "rebootRounds st' j p = rebootRounds st j p"
  using assms(1)
proof (rule pass_invariant_ctx [where I = "\<lambda>s. rebootRounds s j p = rebootRounds st j p"])
  show "rebootRounds st j p = rebootRounds st j p" ..
  show "rebootRounds (makeRound i pid s) j p = rebootRounds st j p"
    if "rebootRounds s j p = rebootRounds st j p" "pkey \<in> set xs" "poolSlot pkey = Some pid"
    for pkey pid s
    using that assms(2) by (auto simp: rebootRounds_makeRound)
  show "rebootRounds s' j p = rebootRounds st j p"
    if a: "rebootRounds s j p = rebootRounds st j p" "pkey \<in> set xs" "poolSlot pkey = Some pid"
      "rebootRounds s i pid \<noteq> None" "scheduleServer i pid pkey skey s = Inr s'"
    for pkey pid skey s s'
    using a(5)
  proof (cases rule: scheduleServer_cases)
    case (place v sv round)
    from a(2,3) assms(2) have "pid \<noteq> p" by auto
    then show ?thesis
      unfolding place(8) using a(1) placeServer_rounds [OF place(5,6)] by simp
  qed (use a(1) in auto)
qed

lemma pool_slot_unique:
  assumes wf: "wf_pools ps" and "x \<in> fst ` set ps" "pk \<in> fst ` set ps"
    and "poolSlot x = Some p" "poolSlot pk = Some p"
  shows "x = pk"
proof -
  from assms(2) obtain vx where vx: "map_of ps x = Some vx"
    by (metis map_of_eq_None_iff not_None_eq)
  from assms(3) obtain v where v: "map_of ps pk = Some v"
    by (metis map_of_eq_None_iff not_None_eq)
  from wf vx have "\<exists>w. x = Itoa w" unfolding wf_pools_def by blast
  then obtain wx where wx: "x = Itoa wx" ..
  from wf v have "\<exists>w. pk = Itoa w" unfolding wf_pools_def by blast
  then obtain w where w: "pk = Itoa w" ..
  from poolSlot_inj [of wx p w] assms(4,5) show ?thesis by (simp add: wx w)
qed

lemma pending_slot:
  assumes "poolSlot pk = Some pid"
  shows "h \<in> pending ps st pk \<longleftrightarrow>
     (\<exists>s0. serverAt ps pk h = Some s0 \<and> areAllSetsOK s0) \<and> (\<forall>i. \<not> slotHas st i pid h)"
  using assms by (auto simp: pending_def inAnyRound_def)

lemma pending_subset:
  assumes "map_of ps pk = Some v0"
  shows "pending ps st pk \<subseteq> fst ` set (Servers v0)"
  using assms by (auto simp: pending_def serverAt_def dest!: map_of_SomeD intro: rev_image_eqI)

lemma pending_card:
  assumes "map_of ps pk = Some v0"
  shows "finite (pending ps st pk)" "card (pending ps st pk) \<le> length (Servers v0)"
proof -
  note s = pending_subset [OF assms, of st]
  then show "finite (pending ps st pk)" by (rule finite_subset) simp
  have "card (pending ps st pk) \<le> card (fst ` set (Servers v0))"
    using s by (intro card_mono) simp_all
  also have "\<dots> \<le> card (set (Servers v0))" by (rule card_image_le) simp
  also have "\<dots> \<le> length (Servers v0)" by (rule card_length)
  finally show "card (pending ps st pk) \<le> length (Servers v0)" .
qed

text \<open>The visit of a pool in a round whose map for the pool is still \<open>nil\<close>: if a Server
  of the pool is pending, the first pending one in the order of the keys enters the round.\<close>

lemma visit_first_pending:
  assumes wf: "wf_pools ps" and slot: "poolSlot pk = Some pid"
    and f: "foldE (scheduleServer i pid pk) ks s = Inr st'"
    and inv: "sched_inv ps s" and rr: "rebootRounds s i pid = Some []"
    and h: "h \<in> set ks" "h \<in> pending ps s pk"
  shows "\<exists>h'\<in>pending ps s pk. slotHas st' i pid h'"
  using f inv rr h
proof (induction ks arbitrary: s)
  case Nil
  then show ?case by simp
next
  case (Cons x rest)
  from Cons.prems(1) obtain s1 where r: "scheduleServer i pid pk x s = Inr s1"
    and f1: "foldE (scheduleServer i pid pk) rest s1 = Inr st'"
    by (auto split: sum.splits)
  note inv = Cons.prems(2) and rr = Cons.prems(3)
  from r obtain v sx where v: "map_of (ss_pools s) pk = Some v"
    and sx: "map_of (Servers v) x = Some sx"
    by (cases rule: scheduleServer_cases) blast+
  then have sa: "serverAt (ss_pools s) pk x = Some sx" by (simp add: serverAt_def)
  from inv wf sa obtain s0 where s0: "serverAt ps pk x = Some s0"
    and e: "Endpoint sx = x" and pr: "Processed sx = inAnyRound s pk x"
    and ok: "areAllSetsOK sx = areAllSetsOK s0"
    by (rule sched_inv_server)
  show ?case
  proof (cases "x \<in> pending ps s pk")
    case True
    with s0 pr ok have np: "\<not> Processed sx" and oks: "areAllSetsOK sx"
      by (auto simp: pending_def)
    have "scheduleServer i pid pk x s = Inr (placeServer i pid pk x v sx [] s)"
      by (rule scheduleServer_place) (use v sx np oks rr in simp_all)
    with r have s1: "s1 = placeServer i pid pk x v sx [] s" by simp
    have "slotHas s1 i pid x"
      unfolding s1 using placeServer_slotHas [OF rr, of sx pk x v i pid x] e by simp
    with f1 have "slotHas st' i pid x"
      by (rule foldE_inv [where I = "\<lambda>st. slotHas st i pid x"]) (rule slotHas_step)
    with True show ?thesis by blast
  next
    case False
    with Cons.prems(4,5) have hr: "h \<in> set rest" by auto
    from False s0 pr ok have c: "Processed sx \<or> \<not> areAllSetsOK sx"
      by (auto simp: pending_def)
    have s1: "s1 = s \<or> s1 = s\<lparr>unhealthy := AList.update (Endpoint sx) sx (unhealthy s)\<rparr>"
      using r v sx c by (cases "Processed sx") (auto simp: scheduleServer_def)
    then have same: "rebootRounds s1 = rebootRounds s" "pending ps s1 pk = pending ps s pk"
      by (auto simp: pending_def)
    from sched_inv_step [OF r inv wf slot] have inv1: "sched_inv ps s1" .
    from Cons.IH [OF f1 inv1] rr hr Cons.prems(5) same
    show ?thesis by simp
  qed
qed

lemma visit_progress:
  assumes inv: "sched_inv ps st" and wf: "wf_pools ps"
    and run: "schedulePool i pk st = Inr st'" and slot: "poolSlot pk = Some pid"
    and fr: "rebootRounds st i pid = None" and pend: "h \<in> pending ps st pk"
  shows "\<exists>h'\<in>pending ps st pk. slotHas st' i pid h'"
proof -
  from run obtain pidw v where a: "Atoi pk = Some pidw" "0 \<le> sint pidw" "sint pidw < int roundsLen"
    and v: "map_of (ss_pools st) pk = Some v"
    and f: "foldE (scheduleServer i (nat (sint pidw)) pk) (stringKeysSorted (Servers v))
        (makeRound i (nat (sint pidw)) st) = Inr st'"
    by (rule schedulePool_cases)
  from poolSlot_context [OF a] slot have pid: "nat (sint pidw) = pid" by simp
  let ?sm = "makeRound i pid st"
  from inv v obtain v0 where v0: "map_of ps pk = Some v0"
    and ks: "map fst (Servers v) = map fst (Servers v0)" by (rule sched_inv_keys)
  from pend pending_subset [OF v0] have "h \<in> fst ` set (Servers v0)" by blast
  then have "h \<in> set (map fst (Servers v))" unfolding ks by simp
  then have hk: "h \<in> set (stringKeysSorted (Servers v))" by simp
  have p: "pending ps ?sm pk = pending ps st pk" by (simp add: pending_def)
  have rr: "rebootRounds ?sm i pid = Some []" using fr by (simp add: rebootRounds_makeRound)
  from f have f': "foldE (scheduleServer i pid pk) (stringKeysSorted (Servers v)) ?sm = Inr st'"
    by (simp only: pid)
  from visit_first_pending [OF wf slot f' sched_inv_makeRound [OF inv] rr hk] pend p
  show ?thesis by simp
qed

lemma pass_progress:
  assumes inv: "sched_inv ps st" and wf: "wf_pools ps"
    and run: "foldE (schedulePool i) (stringKeysSorted ps) st = Inr st'"
    and fr: "freshFrom i st" and pool: "map_of ps pk = Some v0"
    and pend: "h \<in> pending ps st pk"
  shows "\<exists>h'\<in>pending ps st pk. h' \<notin> pending ps st' pk"
proof -
  from pool have "pk \<in> set (stringKeysSorted ps)" by (rule pool_key_visited)
  then obtain us vs where sp: "stringKeysSorted ps = us @ pk # vs" by (meson split_list)
  from wf have "distinct (stringKeysSorted ps)"
    by (simp add: wf_pools_def distinct_stringKeysSorted)
  then have nu: "pk \<notin> set us" unfolding sp by simp
  from run obtain st_u st_v where fu: "foldE (schedulePool i) us st = Inr st_u"
    and fh: "schedulePool i pk st_u = Inr st_v"
    and fv: "foldE (schedulePool i) vs st_v = Inr st'"
    unfolding sp by (auto simp: foldE_append split: sum.splits)
  from pass_sched_inv [OF fu inv wf] have iu: "sched_inv ps st_u" .
  from fh obtain pid where slot: "poolSlot pk = Some pid"
    by (auto elim!: schedulePool_cases simp: poolSlot_context)
  from pool have pkin: "pk \<in> fst ` set ps" by (force dest: map_of_SomeD)
  have other: "\<forall>x\<in>set us. poolSlot x \<noteq> Some pid"
  proof
    fix x assume x: "x \<in> set us"
    then have xin: "x \<in> fst ` set ps"
      using sp stringKeysSorted_set [of ps] by (metis UnCI set_append)
    have "x = pk" if "poolSlot x = Some pid"
      using wf xin pkin that slot by (rule pool_slot_unique)
    with x nu show "poolSlot x \<noteq> Some pid" by blast
  qed
  have same: "rebootRounds st_u j pid = rebootRounds st j pid" for j
    using fu other by (rule slot_untouched)
  then have sh: "slotHas st_u j pid e = slotHas st j pid e" for j e
    by (simp add: slotHas_def)
  have pu: "pending ps st_u pk = pending ps st pk"
    by (auto simp: pending_slot [OF slot] sh)
  from fr have "rebootRounds st i pid = None" by (simp add: freshFrom_def)
  with same have fru: "rebootRounds st_u i pid = None" by simp
  from pend pu have "h \<in> pending ps st_u pk" by simp
  from visit_progress [OF iu wf fh slot fru this] pu
  obtain h' where h': "h' \<in> pending ps st pk" "slotHas st_v i pid h'" by auto
  from fv h'(2) have "slotHas st' i pid h'" by (rule slotHas_pass)
  then have "h' \<notin> pending ps st' pk" unfolding pending_slot [OF slot] by blast
  with h'(1) show ?thesis by blast
qed

lemma pending_pass_mono:
  assumes "foldE (schedulePool i) xs st = Inr st'"
  shows "pending ps st' pk \<subseteq> pending ps st pk"
proof
  fix h assume h: "h \<in> pending ps st' pk"
  have "inAnyRound st pk h \<Longrightarrow> inAnyRound st' pk h"
    unfolding inAnyRound_def using slotHas_pass [OF assms] by blast
  with h show "h \<in> pending ps st pk" by (auto simp: pending_def)
qed

lemma pending_pass_card:
  assumes inv: "sched_inv ps st" and wf: "wf_pools ps"
    and run: "foldE (schedulePool i) (stringKeysSorted ps) st = Inr st'"
    and fr: "freshFrom i st" and pool: "map_of ps pk = Some v0"
    and c: "card (pending ps st pk) \<le> Suc k"
  shows "card (pending ps st' pk) \<le> k"
proof (cases "pending ps st pk = {}")
  case True
  with pending_pass_mono [OF run, of ps pk] have "pending ps st' pk = {}" by simp
  then show ?thesis by simp
next
  case False
  then obtain h where "h \<in> pending ps st pk" by blast
  from pass_progress [OF inv wf run fr pool this]
  obtain h' where "h' \<in> pending ps st pk" "h' \<notin> pending ps st' pk" by blast
  with pending_pass_mono [OF run, of ps pk] have "pending ps st' pk \<subset> pending ps st pk"
    by blast
  with pending_card(1) [OF pool] have "card (pending ps st' pk) < card (pending ps st pk)"
    by (intro psubset_card_mono)
  with c show ?thesis by simp
qed

lemma processed_not_pending:
  assumes inv: "sched_inv ps st" and eq: "processedSet (ss_pools st) = serverSet ps"
  shows "pending ps st pk = {}"
proof -
  have "inAnyRound st pk h" if "serverAt ps pk h = Some s0" for h s0
  proof -
    from that have "(pk, h) \<in> serverSet ps" by (simp add: serverSet_def)
    with eq have "(pk, h) \<in> processedSet (ss_pools st)" by simp
    then obtain s where s: "serverAt (ss_pools st) pk h = Some s" "Processed s"
      by (auto simp: processedSet_def)
    with sched_invD(3) [OF inv, of pk h] that show ?thesis by auto
  qed
  then show ?thesis by (auto simp: pending_def)
qed

text \<open>With as many rounds left as a pool has pending Servers, none is pending at the end.\<close>

lemma rounds_progress:
  assumes wf: "wf_pools ps" and n: "nsrv = of_nat (card (serverSet ps))"
    and sm: "card (serverSet ps) < 2 ^ 63" and pool: "map_of ps pk = Some v0"
    and run: "roundLoop k i (stringKeysSorted ps) nsrv st = Inr (st', rep)"
    and inv: "sched_inv ps st" and fr: "freshFrom i st"
    and c: "card (pending ps st pk) \<le> k"
  shows "pending ps st' pk = {}"
  using run inv fr c
proof (induction k arbitrary: i st)
  case 0
  then have "st' = st" by simp
  with 0 pending_card(1) [OF pool, of st] show ?case by simp
next
  case (Suc k)
  show ?case
  proof (cases "nsrv \<le>s processed st")
    case True
    with Suc.prems(1) have st: "st' = st" by simp
    from all_processed(1) [OF Suc.prems(2) n sm True]
    show ?thesis unfolding st using Suc.prems(2) by (intro processed_not_pending)
  next
    case False
    with Suc.prems(1) obtain st1 where p: "foldE (schedulePool i) (stringKeysSorted ps) st = Inr st1"
      and r: "roundLoop k (Suc i) (stringKeysSorted ps) nsrv st1 = Inr (st', rep)"
      by (auto split: sum.splits)
    from pass_sched_inv [OF p Suc.prems(2) wf] have i1: "sched_inv ps st1" .
    from freshFrom_pass [OF p Suc.prems(3)] have f1: "freshFrom (Suc i) st1" .
    from pending_pass_card [OF Suc.prems(2) wf p Suc.prems(3) pool Suc.prems(4)]
    have "card (pending ps st1 pk) \<le> k" .
    with r i1 f1 show ?thesis by (rule Suc.IH)
  qed
qed

lemma freshFrom_init: "freshFrom i (sched_init ps)"
  by (simp add: freshFrom_def sched_init_def)

text \<open>In a pool of at most 200 servers, every Server whose Sets can all be rebooted is in
  a round at the end.\<close>

lemma healthy_server_placed:
  assumes g: "getInfra parse info = Inr (ps, nsrv)" and m: "makeHostfile parse info = Inr (st, rep)"
    and len: "length (iDisks info) < 2 ^ 63"
    and pool: "map_of ps pk = Some v0" and small: "length (Servers v0) \<le> roundsLen"
    and sa: "serverAt ps pk h = Some s" and ok: "areAllSetsOK s"
  shows "inAnyRound st pk h"
proof -
  note wf = getInfra_wf(1) [OF g] and n = getInfra_wf(2,3) [OF g]
  from n(2) len have sm: "card (serverSet ps) < 2 ^ 63" by simp
  from makeHostfile_schedule [OF g m]
  have r: "roundLoop roundsLen 0 (stringKeysSorted ps) nsrv (sched_init ps) = Inr (st, rep)"
    by (simp add: schedule_def)
  from pending_card(2) [OF pool, of "sched_init ps"] small
  have c: "card (pending ps (sched_init ps) pk) \<le> roundsLen" by simp
  from rounds_progress [OF wf n(1) sm pool r sched_inv_init [OF wf] freshFrom_init c]
  have "pending ps st pk = {}" .
  with sa ok show ?thesis by (auto simp: pending_def)
qed

section \<open>The report and the failure list\<close>

lemma all_in_rounds:
  assumes inv: "sched_inv ps st"
    and allok: "\<forall>pk h s. serverAt ps pk h = Some s \<longrightarrow> areAllSetsOK s"
    and none: "\<forall>pk v0. map_of ps pk = Some v0 \<longrightarrow> pending ps st pk = {}"
  shows "processedSet (ss_pools st) = serverSet ps"
proof
  show "processedSet (ss_pools st) \<subseteq> serverSet ps"
    using processedSet_subset [of "ss_pools st"] serverSet_sched_inv [OF inv] by simp
  show "serverSet ps \<subseteq> processedSet (ss_pools st)"
  proof
    fix x assume "x \<in> serverSet ps"
    then obtain pk h s0 where x: "x = (pk, h)" and s0: "serverAt ps pk h = Some s0"
      by (auto simp: serverSet_def)
    from s0 obtain v0 where "map_of ps pk = Some v0" by (auto dest: serverAt_pool)
    with none have "pending ps st pk = {}" by blast
    moreover from allok s0 have "areAllSetsOK s0" by blast
    ultimately have ia: "inAnyRound st pk h" using s0 by (auto simp: pending_def)
    from sched_invD(3) [OF inv, of pk h] s0 ia
    have "serverAt (ss_pools st) pk h = Some (s0\<lparr>Processed := True\<rparr>)" by simp
    then show "x \<in> processedSet (ss_pools st)" by (simp add: x processedSet_def)
  qed
qed

text \<open>When no Server has a Set that cannot be rebooted, and a round more is left than any
  pool has pending Servers, the loop takes the early exit.\<close>

lemma rounds_report:
  assumes wf: "wf_pools ps" and n: "nsrv = of_nat (card (serverSet ps))"
    and sm: "card (serverSet ps) < 2 ^ 63"
    and allok: "\<forall>pk h s. serverAt ps pk h = Some s \<longrightarrow> areAllSetsOK s"
    and run: "roundLoop (Suc k) i (stringKeysSorted ps) nsrv st = Inr (st', rep)"
    and inv: "sched_inv ps st" and fr: "freshFrom i st"
    and c: "\<forall>pk v0. map_of ps pk = Some v0 \<longrightarrow> card (pending ps st pk) \<le> k"
  shows "rep \<noteq> None"
  using run inv fr c
proof (induction k arbitrary: i st)
  case 0
  have "pending ps st pk = {}" if "map_of ps pk = Some v0" for pk v0
  proof -
    from 0(4) that have "card (pending ps st pk) = 0" by blast
    with pending_card(1) [OF that, of st] show ?thesis by simp
  qed
  then have "processedSet (ss_pools st) = serverSet ps"
    by (intro all_in_rounds [OF 0(2) allok]) blast
  with sched_invD(7) [OF 0(2)] n have "processed st = nsrv" by simp
  then have "nsrv \<le>s processed st" by simp
  with 0(1) have "rep = Some (nsrv, processed st)" by auto
  then show ?case by simp
next
  case (Suc k)
  show ?case
  proof (cases "nsrv \<le>s processed st")
    case True
    with Suc.prems(1) have "rep = Some (nsrv, processed st)" by auto
    then show ?thesis by simp
  next
    case False
    with Suc.prems(1) obtain st1 where p: "foldE (schedulePool i) (stringKeysSorted ps) st = Inr st1"
      and r: "roundLoop (Suc k) (Suc i) (stringKeysSorted ps) nsrv st1 = Inr (st', rep)"
      by (auto split: sum.splits)
    from pass_sched_inv [OF p Suc.prems(2) wf] have i1: "sched_inv ps st1" .
    from freshFrom_pass [OF p Suc.prems(3)] have f1: "freshFrom (Suc i) st1" .
    have c1: "\<forall>pk v0. map_of ps pk = Some v0 \<longrightarrow> card (pending ps st1 pk) \<le> k"
    proof (intro allI impI)
      fix pk v0 assume pool: "map_of ps pk = Some v0"
      with Suc.prems(4) have "card (pending ps st pk) \<le> Suc k" by blast
      with Suc.prems(2) wf p Suc.prems(3) pool show "card (pending ps st1 pk) \<le> k"
        by (rule pending_pass_card)
    qed
    from r i1 f1 c1 show ?thesis by (rule Suc.IH)
  qed
qed

lemma report_is_total:
  assumes g: "getInfra parse info = Inr (ps, nsrv)" and m: "makeHostfile parse info = Inr (st, rep)"
    and len: "length (iDisks info) < 2 ^ 63" and rep: "rep \<noteq> None"
  shows "rep = Some (nsrv, nsrv)" and "processedSet (ss_pools st) = serverSet ps"
    and "unhealthy st = []"
proof -
  note r = makeHostfile_schedule [OF g m]
  note wf = getInfra_wf(1) [OF g] and n = getInfra_wf(2,3) [OF g]
  note inv = schedule_sched_inv [OF r wf]
  from n(2) len have sm: "card (serverSet ps) < 2 ^ 63" by simp
  from rep obtain x where x: "rep = Some x" by auto
  from r have "roundLoop roundsLen 0 (stringKeysSorted ps) nsrv (sched_init ps) = Inr (st, Some x)"
    by (simp add: schedule_def x)
  then have rr: "x = (nsrv, processed st) \<and> nsrv \<le>s processed st" by (rule roundLoop_report)
  then have le: "nsrv \<le>s processed st" ..
  note ap = all_processed [OF inv n(1) sm le]
  from rr ap(2) x show "rep = Some (nsrv, nsrv)" by simp
  show "processedSet (ss_pools st) = serverSet ps" by (rule ap(1))
  show "unhealthy st = []"
  proof (rule ccontr)
    assume "unhealthy st \<noteq> []"
    then obtain e s where e: "map_of (unhealthy st) e = Some s" by (auto dest: nonempty_map_of)
    from sched_invD(6) [OF inv e] obtain pk where sa: "serverAt (ss_pools st) pk e = Some s"
      and bad: "\<not> areAllSetsOK s" by blast
    from sa have "(pk, e) \<in> serverSet (ss_pools st)" by (simp add: serverSet_def)
    with serverSet_sched_inv [OF inv] ap(1) have "(pk, e) \<in> processedSet (ss_pools st)" by simp
    with sa have "Processed s" by (auto simp: processedSet_def)
    from sched_inv_processed_ok [OF inv wf sa this] bad show False by simp
  qed
qed

text \<open>No Server with a Set that cannot be rebooted, and fewer than 200 servers in every
  pool: the loop takes the early exit.\<close>

lemma all_healthy_report:
  assumes g: "getInfra parse info = Inr (ps, nsrv)" and m: "makeHostfile parse info = Inr (st, rep)"
    and len: "length (iDisks info) < 2 ^ 63"
    and allok: "\<forall>pk h s. serverAt ps pk h = Some s \<longrightarrow> areAllSetsOK s"
    and small: "\<forall>pk v0. map_of ps pk = Some v0 \<longrightarrow> length (Servers v0) < roundsLen"
  shows "rep = Some (nsrv, nsrv)"
proof -
  note wf = getInfra_wf(1) [OF g] and n = getInfra_wf(2,3) [OF g]
  from n(2) len have sm: "card (serverSet ps) < 2 ^ 63" by simp
  from makeHostfile_schedule [OF g m]
  have r: "roundLoop (Suc 199) 0 (stringKeysSorted ps) nsrv (sched_init ps) = Inr (st, rep)"
    by (simp add: schedule_def roundsLen_Suc)
  have c: "\<forall>pk v0. map_of ps pk = Some v0 \<longrightarrow> card (pending ps (sched_init ps) pk) \<le> 199"
  proof (intro allI impI)
    fix pk v0 assume pool: "map_of ps pk = Some v0"
    with small have "length (Servers v0) < roundsLen" by blast
    with pending_card(2) [OF pool, of "sched_init ps"]
    show "card (pending ps (sched_init ps) pk) \<le> 199" by (simp add: roundsLen_def)
  qed
  from rounds_report [OF wf n(1) sm allok r sched_inv_init [OF wf] freshFrom_init c]
  have "rep \<noteq> None" .
  with g m len show ?thesis by (rule report_is_total(1))
qed

lemma unhealthy_distinct:
  assumes "schedule ps tot = Inr (st, rep)"
  shows "distinct (map fst (unhealthy st))"
  using assms unfolding schedule_def
proof (rule roundLoop_invariant [where I = "\<lambda>st. distinct (map fst (unhealthy st))"])
  show "distinct (map fst (unhealthy (sched_init ps)))" by (simp add: sched_init_def)
  show "distinct (map fst (unhealthy (makeRound i pid st)))"
    if "distinct (map fst (unhealthy st))" for i pid st
    using that by simp
  show "distinct (map fst (unhealthy st'))"
    if "distinct (map fst (unhealthy st))" "scheduleServer i (nat (sint pidw)) pkey skey st = Inr st'"
    for i pidw pkey skey st st'
    using that(2,1) by (cases rule: scheduleServer_cases) (auto simp: distinct_update)
qed

text \<open>The failure list holds the hostnames that have, in some pool, a Server with a Set
  that cannot be rebooted.\<close>

lemma failureFile_iff:
  assumes g: "getInfra parse info = Inr (ps, nsrv)" and m: "makeHostfile parse info = Inr (st, rep)"
    and len: "length (iDisks info) < 2 ^ 63"
  shows "h \<in> set (failureFile st) \<longleftrightarrow>
     (\<exists>pk s. serverAt ps pk h = Some s \<and> \<not> areAllSetsOK s)"
proof
  note r = makeHostfile_schedule [OF g m]
  note wf = getInfra_wf(1) [OF g]
  note inv = schedule_sched_inv [OF r wf]
  assume "h \<in> set (failureFile st)"
  then obtain k v where kv: "(k, v) \<in> set (unhealthy st)" and e: "Endpoint v = h"
    by (auto simp: failureFile_def)
  from unhealthy_distinct [OF r] kv have "map_of (unhealthy st) k = Some v" by simp
  from sched_invD(6) [OF inv this] obtain pk where sa: "serverAt (ss_pools st) pk k = Some v"
    and bad: "\<not> areAllSetsOK v" by blast
  from inv wf sa obtain s0 where "serverAt ps pk k = Some s0" "Endpoint v = k"
    "areAllSetsOK v = areAllSetsOK s0" by (rule sched_inv_server)
  with e bad show "\<exists>pk s. serverAt ps pk h = Some s \<and> \<not> areAllSetsOK s" by auto
next
  assume "\<exists>pk s. serverAt ps pk h = Some s \<and> \<not> areAllSetsOK s"
  then obtain pk s where "serverAt ps pk h = Some s" "\<not> areAllSetsOK s" by blast
  with g m len show "h \<in> set (failureFile st)" by (rule unhealthy_server_outcome(1))
qed

lemma serverAtI:
  "map_of ps pk = Some v \<Longrightarrow> map_of (Servers v) h = Some s \<Longrightarrow> serverAt ps pk h = Some s"
  by (simp add: serverAt_def)

(*CLAIMS*)

section \<open>The topology builder\<close>

text \<open>
  Claim C2 (CanReboot threshold). After getInfra has built the topology, every per-server
  view of a Set has \<open>CanReboot\<close> true exactly when its \<open>BadDisks\<close> is strictly less
  than \<open>SCParity - 1\<close>, in Go's signed 64-bit arithmetic; with parity 2, no bad disk gives
  \<open>CanReboot = true\<close> and one bad disk gives \<open>CanReboot = false\<close>.
\<close>

theorem canReboot_threshold:
  assumes "getInfra parse info = Inr (ps, nsrv)" and "view ps pk h sid = Some v"
  shows "(CanReboot v \<longleftrightarrow> BadDisks v <s SCParity v - 1) \<and>
         (SCParity v = 2 \<and> BadDisks v = 0 \<longrightarrow> CanReboot v) \<and>
         (SCParity v = 2 \<and> BadDisks v = 1 \<longrightarrow> \<not> CanReboot v)"
proof -
  have c: "CanReboot v \<longleftrightarrow> BadDisks v <s SCParity v - 1"
    using getInfra_view(5) [OF assms] by (simp add: signed.not_le)
  then show ?thesis by (auto simp: word_sless_alt)
qed

text \<open>The threshold on a pool of two servers and two sets with parity 2: the set without
  a bad disk can be rebooted, the set with one bad disk cannot.\<close>

theorem canReboot_threshold_witness:
  "getInfra slashParser info2 = Inr (topoOf info2, 2) \<and>
   view (topoOf info2) ''1'' ''a'' 1 \<noteq> None \<and>
   SCParity (the (view (topoOf info2) ''1'' ''a'' 1)) = 2 \<and>
   BadDisks (the (view (topoOf info2) ''1'' ''a'' 1)) = 0 \<and>
   CanReboot (the (view (topoOf info2) ''1'' ''a'' 1)) \<and>
   view (topoOf info2) ''1'' ''b'' 2 \<noteq> None \<and>
   SCParity (the (view (topoOf info2) ''1'' ''b'' 2)) = 2 \<and>
   BadDisks (the (view (topoOf info2) ''1'' ''b'' 2)) = 1 \<and>
   \<not> CanReboot (the (view (topoOf info2) ''1'' ''b'' 2))"
proof -
  have g: "getInfra slashParser info2 = Inr (topoOf info2, 2)" by code_simp
  have n1: "view (topoOf info2) ''1'' ''a'' 1 \<noteq> None"
    and n2: "view (topoOf info2) ''1'' ''b'' 2 \<noteq> None" by code_simp+
  have p1: "SCParity (the (view (topoOf info2) ''1'' ''a'' 1)) = 2"
    "BadDisks (the (view (topoOf info2) ''1'' ''a'' 1)) = 0" by code_simp+
  have p2: "SCParity (the (view (topoOf info2) ''1'' ''b'' 2)) = 2"
    "BadDisks (the (view (topoOf info2) ''1'' ''b'' 2)) = 1" by code_simp+
  from n1 have v1: "view (topoOf info2) ''1'' ''a'' 1 = Some (the (view (topoOf info2) ''1'' ''a'' 1))"
    by (simp del: not_None_eq)
  from n2 have v2: "view (topoOf info2) ''1'' ''b'' 2 = Some (the (view (topoOf info2) ''1'' ''b'' 2))"
    by (simp del: not_None_eq)
  have c1: "CanReboot (the (view (topoOf info2) ''1'' ''a'' 1))"
    using canReboot_threshold [OF g v1] p1 by blast
  have c2: "\<not> CanReboot (the (view (topoOf info2) ''1'' ''b'' 2))"
    using canReboot_threshold [OF g v2] p2 by blast
  show ?thesis
    by (intro conjI) (fact g n1 n2 p1 p2 c1 c2)+
qed

text \<open>
  Claim C3 (global set-view agreement). After getInfra returns, any two per-server views
  of the same set of the same pool agree on \<open>BadDisks\<close> and on \<open>CanReboot\<close>, and the
  shared \<open>BadDisks\<close> is the number of input disk records of that pool and set whose state
  is not \<open>ok\<close>, over all servers: as a Go integer, and as a number whenever the record
  list is shorter than \<open>2 ^ 63\<close>, as every Go slice is.
\<close>

theorem set_views_agree:
  assumes "getInfra parse info = Inr (ps, nsrv)"
    and "view ps pk h1 sid = Some v1" and "view ps pk h2 sid = Some v2"
  shows "BadDisks v1 = BadDisks v2 \<and> CanReboot v1 = CanReboot v2 \<and>
         BadDisks v1 = of_nat (badDisksOf (Pool v1) (ID v1) (iDisks info)) \<and>
         (length (iDisks info) < 2 ^ 63 \<longrightarrow>
            sint (BadDisks v1) = int (badDisksOf (Pool v1) (ID v1) (iDisks info)))"
proof -
  note a = getInfra_view [OF assms(1) assms(2)] and b = getInfra_view [OF assms(1) assms(3)]
  from a(2) b(2) have "Itoa (Pool v1) = Itoa (Pool v2)" by simp
  then have p: "Pool v1 = Pool v2" by (simp add: Itoa_inj)
  have i: "ID v1 = ID v2" using a(1) b(1) by simp
  have bd: "BadDisks v1 = BadDisks v2" using a(4) b(4) p i by simp
  have cr: "CanReboot v1 = CanReboot v2" using a(5) b(5) a(3) b(3) bd by simp
  have le: "badDisksOf (Pool v1) (ID v1) (iDisks info) \<le> length (iDisks info)"
    by (simp add: badDisksOf_def)
  have s: "length (iDisks info) < 2 ^ 63 \<Longrightarrow>
      sint (BadDisks v1) = int (badDisksOf (Pool v1) (ID v1) (iDisks info))"
    using le a(4) by (simp add: sint_of_nat_small)
  show ?thesis using bd cr a(4) s by blast
qed

text \<open>Set 2 of the sample pool has its one bad disk on server \<open>a\<close>; the view of server
  \<open>b\<close> carries the same count.\<close>

theorem set_views_agree_witness:
  "getInfra slashParser info2 = Inr (topoOf info2, 2) \<and>
   view (topoOf info2) ''1'' ''a'' 2 \<noteq> None \<and> view (topoOf info2) ''1'' ''b'' 2 \<noteq> None \<and>
   length (iDisks info2) < 2 ^ 63 \<and>
   Pool (the (view (topoOf info2) ''1'' ''a'' 2)) = 1 \<and>
   ID (the (view (topoOf info2) ''1'' ''a'' 2)) = 2 \<and>
   badDisksOf 1 2 (iDisks info2) = 1 \<and>
   sint (BadDisks (the (view (topoOf info2) ''1'' ''a'' 2))) = 1 \<and>
   BadDisks (the (view (topoOf info2) ''1'' ''b'' 2)) = BadDisks (the (view (topoOf info2) ''1'' ''a'' 2))"
proof -
  have g: "getInfra slashParser info2 = Inr (topoOf info2, 2)" by code_simp
  have n1: "view (topoOf info2) ''1'' ''a'' 2 \<noteq> None"
    and n2: "view (topoOf info2) ''1'' ''b'' 2 \<noteq> None" by code_simp+
  from n1 have v1: "view (topoOf info2) ''1'' ''a'' 2 = Some (the (view (topoOf info2) ''1'' ''a'' 2))"
    by (simp del: not_None_eq)
  from n2 have v2: "view (topoOf info2) ''1'' ''b'' 2 = Some (the (view (topoOf info2) ''1'' ''b'' 2))"
    by (simp del: not_None_eq)
  have l: "length (iDisks info2) < 2 ^ 63" by (simp add: info2_def)
  have c: "badDisksOf 1 2 (iDisks info2) = 1" by code_simp
  have f: "Pool (the (view (topoOf info2) ''1'' ''a'' 2)) = 1"
    "ID (the (view (topoOf info2) ''1'' ''a'' 2)) = 2" by code_simp+
  note t = set_views_agree [OF g v1 v2]
  have "sint (BadDisks (the (view (topoOf info2) ''1'' ''a'' 2))) = int (badDisksOf 1 2 (iDisks info2))"
    using t l unfolding f by blast
  then have s: "sint (BadDisks (the (view (topoOf info2) ''1'' ''a'' 2))) = 1"
    unfolding c by simp
  have e: "BadDisks (the (view (topoOf info2) ''1'' ''b'' 2)) = BadDisks (the (view (topoOf info2) ''1'' ''a'' 2))"
    using t by metis
  show ?thesis
    by (intro conjI) (fact g n1 n2 l c f s e)+
qed

text \<open>
  Claim C10 (disks keyed by endpoint). In every per-server Set that getInfra builds, the
  keys of \<open>Disks\<close> are distinct endpoint strings; the Disk stored under an endpoint is the
  one made from the last input record of that pool, hostname and set with that endpoint,
  so a later record overwrites an earlier one; and \<open>BadDisks\<close> still counts every record
  of the pool and set that is not \<open>ok\<close>, the overwritten ones included.
\<close>

theorem disks_keyed_by_endpoint:
  assumes "getInfra parse info = Inr (ps, nsrv)" and "view ps pk h sid = Some v"
  shows "distinct (map fst (Disks v)) \<and>
         map_of (Disks v) e = map_option (diskOf parse)
            (find (\<lambda>d. inView parse pk h sid d \<and> mEndpoint d = e) (rev (iDisks info))) \<and>
         BadDisks v = of_nat (badDisksOf (Pool v) (ID v) (iDisks info))"
  using getInfra_view(6) [OF assms] getInfra_view(7) [OF assms] getInfra_view(4) [OF assms]
  by simp

text \<open>Two records with the endpoint \<open>a/d1\<close>, the first offline and the second ok: the
  Disk kept is the second, and the offline record is still counted.\<close>

theorem disks_keyed_by_endpoint_witness:
  "getInfra slashParser infoDup = Inr (topoOf infoDup, 2) \<and>
   view (topoOf infoDup) ''1'' ''a'' 1 \<noteq> None \<and>
   find (\<lambda>d. inView slashParser ''1'' ''a'' 1 d \<and> mEndpoint d = ''a/d1'') (rev (iDisks infoDup))
     = Some (mkDisk 0 0 ''a/d1'' ''ok'') \<and>
   map_of (Disks (the (view (topoOf infoDup) ''1'' ''a'' 1))) ''a/d1''
     = Some (diskOf slashParser (mkDisk 0 0 ''a/d1'' ''ok'')) \<and>
   Pool (the (view (topoOf infoDup) ''1'' ''a'' 1)) = 1 \<and>
   ID (the (view (topoOf infoDup) ''1'' ''a'' 1)) = 1 \<and>
   badDisksOf 1 1 (iDisks infoDup) = 1 \<and>
   BadDisks (the (view (topoOf infoDup) ''1'' ''a'' 1)) = 1"
proof -
  have g: "getInfra slashParser infoDup = Inr (topoOf infoDup, 2)" by code_simp
  have n1: "view (topoOf infoDup) ''1'' ''a'' 1 \<noteq> None" by code_simp
  from n1 have v1: "view (topoOf infoDup) ''1'' ''a'' 1 = Some (the (view (topoOf infoDup) ''1'' ''a'' 1))"
    by (simp del: not_None_eq)
  have f: "find (\<lambda>d. inView slashParser ''1'' ''a'' 1 d \<and> mEndpoint d = ''a/d1'') (rev (iDisks infoDup))
     = Some (mkDisk 0 0 ''a/d1'' ''ok'')" by code_simp
  have c: "badDisksOf 1 1 (iDisks infoDup) = 1" by code_simp
  have q: "Pool (the (view (topoOf infoDup) ''1'' ''a'' 1)) = 1"
    "ID (the (view (topoOf infoDup) ''1'' ''a'' 1)) = 1" by code_simp+
  note t = disks_keyed_by_endpoint [OF g v1, of "''a/d1''"]
  have m: "map_of (Disks (the (view (topoOf infoDup) ''1'' ''a'' 1))) ''a/d1''
     = Some (diskOf slashParser (mkDisk 0 0 ''a/d1'' ''ok''))"
    using t unfolding f by simp
  have b: "BadDisks (the (view (topoOf infoDup) ''1'' ''a'' 1)) = 1"
    using t unfolding q c by simp
  show ?thesis
    by (intro conjI) (fact g n1 f m q c b)+
qed

section \<open>The rollout scheduler\<close>

text \<open>
  Claim C1 (scheduler safety), as the code has it. The conflict test of makeHostfile runs
  over the map \<open>rebootRounds[i][pid]\<close> of one round and one pool. So in every round, two
  different Servers filed under the same pool share no set id; and two hosts that hold
  disks of the same erasure set (two disk records with the same pool index and the same
  set index, on different hostnames) are never both filed in the same round under that
  pool. Nothing is checked between the maps of different pools of a round.
\<close>

theorem round_no_shared_set:
  assumes "makeHostfile parse info = Inr (st, rep)"
  shows "(inRound st i pid ea sa \<longrightarrow> inRound st i pid eb sb \<longrightarrow> ea \<noteq> eb \<longrightarrow>
            setIds sa \<inter> setIds sb = {}) \<and>
         (da \<in> set (iDisks info) \<longrightarrow> db \<in> set (iDisks info) \<longrightarrow>
          mPoolIndex da = mPoolIndex db \<longrightarrow> mSetIndex da = mSetIndex db \<longrightarrow>
          urlHost parse da = Some ha \<longrightarrow> urlHost parse db = Some hb \<longrightarrow> ha \<noteq> hb \<longrightarrow>
          poolSlot (Itoa (mPoolIndex da + 1)) = Some q \<longrightarrow>
          \<not> (slotHas st j q ha \<and> slotHas st j q hb))"
proof -
  from assms obtain ps nsrv where g: "getInfra parse info = Inr (ps, nsrv)"
    and r: "schedule ps nsrv = Inr (st, rep)" by (rule makeHostfile_Inr)
  have a: "setIds sa \<inter> setIds sb = {}"
    if "inRound st i pid ea sa" "inRound st i pid eb sb" "ea \<noteq> eb"
    using r that by (rule same_slot_disjoint)
  have b: "\<not> (slotHas st j q ha \<and> slotHas st j q hb)"
    if da: "da \<in> set (iDisks info)" and db: "db \<in> set (iDisks info)"
      and p: "mPoolIndex da = mPoolIndex db" and s: "mSetIndex da = mSetIndex db"
      and ua: "urlHost parse da = Some ha" and ub: "urlHost parse db = Some hb"
      and ne: "ha \<noteq> hb" and sl: "poolSlot (Itoa (mPoolIndex da + 1)) = Some q"
  proof
    assume "slotHas st j q ha \<and> slotHas st j q hb"
    then obtain xa xb where xa: "inRound st j q ha xa" and xb: "inRound st j q hb xb"
      by (auto simp: slotHas_inRound)
    from sl p have slb: "poolSlot (Itoa (mPoolIndex db + 1)) = Some q" by simp
    from slot_server_has_set [OF g r da ua sl xa] have "mSetIndex da + 1 \<in> setIds xa" .
    moreover from slot_server_has_set [OF g r db ub slb xb] s have "mSetIndex da + 1 \<in> setIds xb"
      by simp
    moreover from r xa xb ne have "setIds xa \<inter> setIds xb = {}" by (rule same_slot_disjoint)
    ultimately show False by blast
  qed
  from a b show ?thesis by blast
qed

text \<open>
  One pool with the sets 1 (on \<open>a\<close> and \<open>b\<close>) and 2 (on \<open>c\<close> and \<open>d\<close>). Round 0 holds
  \<open>a\<close> and \<open>c\<close>, two Servers of the same pool that share no set id; \<open>b\<close>, which shares
  set 1 with \<open>a\<close>, failed the conflict test in round 0 and is in round 1.
\<close>

theorem round_no_shared_set_witness:
  "makeHostfile slashParser infoStriped = Inr (schedOf infoStriped, reportOf infoStriped) \<and>
   roundFile (schedOf infoStriped) 0 = [''a'', ''c''] \<and>
   roundFile (schedOf infoStriped) 1 = [''b'', ''d''] \<and>
   inRound (schedOf infoStriped) 0 1 ''a'' (the (map_of (the (rebootRounds (schedOf infoStriped) 0 1)) ''a'')) \<and>
   inRound (schedOf infoStriped) 0 1 ''c'' (the (map_of (the (rebootRounds (schedOf infoStriped) 0 1)) ''c'')) \<and>
   ''a'' \<noteq> ''c'' \<and>
   map fst (Sets (the (map_of (the (rebootRounds (schedOf infoStriped) 0 1)) ''a''))) = [1] \<and>
   map fst (Sets (the (map_of (the (rebootRounds (schedOf infoStriped) 0 1)) ''c''))) = [2] \<and>
   setIds (the (map_of (the (rebootRounds (schedOf infoStriped) 0 1)) ''a'')) \<inter>
     setIds (the (map_of (the (rebootRounds (schedOf infoStriped) 0 1)) ''c'')) = {} \<and>
   mkDisk 0 0 ''a/d1'' ''ok'' \<in> set (iDisks infoStriped) \<and>
   mkDisk 0 0 ''b/d1'' ''ok'' \<in> set (iDisks infoStriped) \<and>
   urlHost slashParser (mkDisk 0 0 ''a/d1'' ''ok'') = Some ''a'' \<and>
   urlHost slashParser (mkDisk 0 0 ''b/d1'' ''ok'') = Some ''b'' \<and>
   ''a'' \<noteq> ''b'' \<and>
   poolSlot (Itoa (mPoolIndex (mkDisk 0 0 ''a/d1'' ''ok'') + 1)) = Some 1 \<and>
   slotHas (schedOf infoStriped) 0 1 ''a'' \<and>
   slotHas (schedOf infoStriped) 1 1 ''b'' \<and>
   \<not> (slotHas (schedOf infoStriped) 0 1 ''a'' \<and> slotHas (schedOf infoStriped) 0 1 ''b'')"
proof -
  let ?st = "schedOf infoStriped"
  let ?sa = "the (map_of (the (rebootRounds ?st 0 1)) ''a'')"
  let ?sc = "the (map_of (the (rebootRounds ?st 0 1)) ''c'')"
  let ?da = "mkDisk 0 0 ''a/d1'' ''ok''" and ?db = "mkDisk 0 0 ''b/d1'' ''ok''"
  have g: "getInfra slashParser infoStriped = Inr (topoOf infoStriped, 4)" by code_simp
  have sl: "\<forall>pk\<in>fst ` set (topoOf infoStriped). poolSlot pk \<noteq> None" by code_simp
  have m: "makeHostfile slashParser infoStriped = Inr (?st, reportOf infoStriped)"
    using g sl by (rule makeHostfile_schedOf_total)
  have f0: "roundFile ?st 0 = [''a'', ''c'']" by code_simp
  have f1: "roundFile ?st 1 = [''b'', ''d'']" by code_simp
  have r1: "inRound ?st 0 1 ''a'' ?sa" by code_simp
  have r2: "inRound ?st 0 1 ''c'' ?sc" by code_simp
  have n1: "''a'' \<noteq> ''c''" by simp
  have k1: "map fst (Sets ?sa) = [1]" by code_simp
  have k2: "map fst (Sets ?sc) = [2]" by code_simp
  have d1: "?da \<in> set (iDisks infoStriped)" by (simp add: infoStriped_def)
  have d2: "?db \<in> set (iDisks infoStriped)" by (simp add: infoStriped_def)
  have u1: "urlHost slashParser ?da = Some ''a''" by code_simp
  have u2: "urlHost slashParser ?db = Some ''b''" by code_simp
  have n2: "''a'' \<noteq> ''b''" by simp
  have ps: "poolSlot (Itoa (mPoolIndex ?da + 1)) = Some 1" by code_simp
  have pp: "mPoolIndex ?da = mPoolIndex ?db" by (simp add: mkDisk_def)
  have ss: "mSetIndex ?da = mSetIndex ?db" by (simp add: mkDisk_def)
  have h1: "slotHas ?st 0 1 ''a''" by code_simp
  have h2: "slotHas ?st 1 1 ''b''" by code_simp
  note inst = round_no_shared_set [OF m, where i = 0 and pid = 1 and ea = "''a''"
      and sa = "?sa" and eb = "''c''" and sb = "?sc" and da = "?da" and db = "?db"
      and ha = "''a''" and hb = "''b''" and q = 1 and j = 0]
  from inst [THEN conjunct1, rule_format, OF r1 r2 n1]
  have disj: "setIds ?sa \<inter> setIds ?sc = {}" .
  from inst [THEN conjunct2, rule_format, OF d1 d2 pp ss u1 u2 n2 ps]
  have no: "\<not> (slotHas ?st 0 1 ''a'' \<and> slotHas ?st 0 1 ''b'')" .
  show ?thesis
    by (intro conjI) (fact m f0 f1 r1 r2 n1 k1 k2 disj d1 d2 u1 u2 n2 ps h1 h2 no)+
qed

text \<open>
  Claim C1 as stated fails. The host \<open>b\<close> has a disk in the erasure set (pool 0, set 0),
  as the host \<open>a\<close> has, and a disk in pool 1. Round 0 holds \<open>a\<close>, filed under the first
  pool, and \<open>b\<close>, filed under the second: two servers of one round that are members of
  the same erasure set. The set id 1 occurs in the Sets maps of both.
\<close>

theorem round_shares_erasure_set_across_pools:
  "map (\<lambda>d. (urlHost slashParser d, mPoolIndex d, mSetIndex d)) (iDisks infoSpan) =
     [(Some ''a'', 0, 0), (Some ''b'', 0, 0), (Some ''b'', 1, 0), (Some ''c'', 1, 0)] \<and>
   roundFile (schedOf infoSpan) 0 = [''a'', ''b''] \<and>
   roundFile (schedOf infoSpan) 1 = [''b'', ''c''] \<and>
   roundSetIds (schedOf infoSpan) 0 1 = [(''a'', [1])] \<and>
   roundSetIds (schedOf infoSpan) 0 2 = [(''b'', [1])]"
  by code_simp

text \<open>
  Claim C4 (scheduler completeness), as the code has it. Take a Server of a pool, that is
  a hostname within one pool, of the topology getInfra returns. If its Sets can all be
  rebooted and the pool has at most 200 servers, it is in a round of its pool; it is never
  in two rounds of its pool. If it has a Set that cannot be rebooted, it is in no round of
  its pool, and the loop never takes the early exit. The failure list holds exactly the
  hostnames that have such a Server in some pool. The early exit, which prints \<open>Total\<close>
  and \<open>Online\<close>, is taken only when every Server is in a round: both numbers are then the
  number of Servers and the failure list is empty. It is taken whenever no Server has a
  Set that cannot be rebooted and every pool has fewer than 200 servers.
\<close>

theorem scheduler_partition:
  assumes g: "getInfra parse info = Inr (ps, nsrv)" and m: "makeHostfile parse info = Inr (st, rep)"
    and len: "length (iDisks info) < 2 ^ 63"
    and pool: "map_of ps pk = Some v" and sv: "map_of (Servers v) h = Some s"
  shows "(areAllSetsOK s \<longrightarrow> length (Servers v) \<le> roundsLen \<longrightarrow> inAnyRound st pk h) \<and>
         (\<forall>pid i j. poolSlot pk = Some pid \<longrightarrow> slotHas st i pid h \<longrightarrow> slotHas st j pid h \<longrightarrow> i = j) \<and>
         (\<not> areAllSetsOK s \<longrightarrow> \<not> inAnyRound st pk h \<and> rep = None) \<and>
         (h \<in> set (failureFile st) \<longleftrightarrow>
            (\<exists>pk' s'. serverAt ps pk' h = Some s' \<and> \<not> areAllSetsOK s')) \<and>
         (rep \<noteq> None \<longrightarrow> rep = Some (nsrv, nsrv) \<and> failureFile st = [] \<and> inAnyRound st pk h) \<and>
         ((\<forall>pk' h' s'. serverAt ps pk' h' = Some s' \<longrightarrow> areAllSetsOK s') \<longrightarrow>
          (\<forall>pk' v'. map_of ps pk' = Some v' \<longrightarrow> length (Servers v') < roundsLen) \<longrightarrow>
          rep = Some (nsrv, nsrv))"
proof -
  note r = makeHostfile_schedule [OF g m]
  note wf = getInfra_wf(1) [OF g]
  note inv = schedule_sched_inv [OF r wf]
  from pool sv have sa: "serverAt ps pk h = Some s" by (simp add: serverAt_def)
  have a: "inAnyRound st pk h" if "areAllSetsOK s" "length (Servers v) \<le> roundsLen"
    using g m len pool that(2) sa that(1) by (rule healthy_server_placed)
  have b: "i = j" if "slotHas st i pid h" "slotHas st j pid h" for pid i j
    using sched_invD(5) [OF inv that] .
  have c: "\<not> inAnyRound st pk h \<and> rep = None" if "\<not> areAllSetsOK s"
    using unhealthy_server_outcome(2,3) [OF g m len sa that] by simp
  have d: "h \<in> set (failureFile st) \<longleftrightarrow>
            (\<exists>pk' s'. serverAt ps pk' h = Some s' \<and> \<not> areAllSetsOK s')"
    using g m len by (rule failureFile_iff)
  have e: "rep = Some (nsrv, nsrv) \<and> failureFile st = [] \<and> inAnyRound st pk h" if "rep \<noteq> None"
  proof -
    note t = report_is_total [OF g m len that]
    from sa have "(pk, h) \<in> serverSet ps" by (simp add: serverSet_def)
    with t(2) have "(pk, h) \<in> processedSet (ss_pools st)" by simp
    then obtain x where x: "serverAt (ss_pools st) pk h = Some x" "Processed x"
      by (auto simp: processedSet_def)
    from inv wf x(1) have "Processed x = inAnyRound st pk h" by (rule sched_inv_server)
    with x(2) t(1,3) show ?thesis by (simp add: failureFile_def)
  qed
  have f: "rep = Some (nsrv, nsrv)"
    if "\<forall>pk' h' s'. serverAt ps pk' h' = Some s' \<longrightarrow> areAllSetsOK s'"
      "\<forall>pk' v'. map_of ps pk' = Some v' \<longrightarrow> length (Servers v') < roundsLen"
    using g m len that by (rule all_healthy_report)
  from a b c d e f show ?thesis by blast
qed

text \<open>
  One pool: \<open>a\<close> and \<open>b\<close> hold a set without a bad disk, \<open>c\<close> and \<open>d\<close> a set with one. The
  Server \<open>b\<close> is in round 1 and not in round 0, and not in the failure list; \<open>c\<close> is in the
  failure list and in no round; no report is printed.
\<close>

theorem scheduler_partition_witness:
  "getInfra slashParser infoMixed = Inr (topoOf infoMixed, 4) \<and>
   makeHostfile slashParser infoMixed = Inr (schedOf infoMixed, reportOf infoMixed) \<and>
   length (iDisks infoMixed) < 2 ^ 63 \<and>
   map fst (Servers (the (map_of (topoOf infoMixed) ''1''))) = [''a'', ''b'', ''c'', ''d''] \<and>
   areAllSetsOK (the (map_of (Servers (the (map_of (topoOf infoMixed) ''1''))) ''b'')) \<and>
   \<not> areAllSetsOK (the (map_of (Servers (the (map_of (topoOf infoMixed) ''1''))) ''c'')) \<and>
   length (Servers (the (map_of (topoOf infoMixed) ''1''))) \<le> roundsLen \<and>
   poolSlot ''1'' = Some 1 \<and>
   inAnyRound (schedOf infoMixed) ''1'' ''b'' \<and>
   slotHas (schedOf infoMixed) 1 1 ''b'' \<and>
   \<not> slotHas (schedOf infoMixed) 0 1 ''b'' \<and>
   ''b'' \<notin> set (failureFile (schedOf infoMixed)) \<and>
   \<not> inAnyRound (schedOf infoMixed) ''1'' ''c'' \<and>
   ''c'' \<in> set (failureFile (schedOf infoMixed)) \<and>
   reportOf infoMixed = None"
proof -
  let ?ps = "topoOf infoMixed" and ?st = "schedOf infoMixed"
  let ?v = "the (map_of (topoOf infoMixed) ''1'')"
  let ?sb = "the (map_of (Servers ?v) ''b'')" and ?sc = "the (map_of (Servers ?v) ''c'')"
  have g: "getInfra slashParser infoMixed = Inr (?ps, 4)" by code_simp
  have sl: "\<forall>pk\<in>fst ` set ?ps. poolSlot pk \<noteq> None" by code_simp
  have m: "makeHostfile slashParser infoMixed = Inr (?st, reportOf infoMixed)"
    using g sl by (rule makeHostfile_schedOf_total)
  have len: "length (iDisks infoMixed) < 2 ^ 63" by (simp add: infoMixed_def)
  have ks: "map fst (Servers ?v) = [''a'', ''b'', ''c'', ''d'']" by code_simp
  have "map_of ?ps ''1'' \<noteq> None" by code_simp
  from option.collapse [OF this] have pool: "map_of ?ps ''1'' = Some ?v" by (rule sym)
  have "map_of (Servers ?v) ''b'' \<noteq> None" by code_simp
  from option.collapse [OF this] have svb: "map_of (Servers ?v) ''b'' = Some ?sb" by (rule sym)
  have "map_of (Servers ?v) ''c'' \<noteq> None" by code_simp
  from option.collapse [OF this] have svc: "map_of (Servers ?v) ''c'' = Some ?sc" by (rule sym)
  have okb: "areAllSetsOK ?sb" by code_simp
  have badc: "\<not> areAllSetsOK ?sc" by code_simp
  have small: "length (Servers ?v) \<le> roundsLen" by code_simp
  have slot: "poolSlot ''1'' = Some 1" by code_simp
  have n: "2 \<le> roundsLen" by (simp add: roundsLen_def)
  have ran: "ranRounds 2 infoMixed" by code_simp
  have se: "settled (roundsOf 2 infoMixed)" by code_simp
  note fin = settled_final [OF g sl n ran se]
  have "slotHas (roundsOf 2 infoMixed) 1 1 ''b''" by code_simp
  then have h1: "slotHas ?st 1 1 ''b''" by (simp add: fin(3))
  note tb = scheduler_partition [OF g m len pool svb]
  note tc = scheduler_partition [OF g m len pool svc]
  from tb [THEN conjunct1, rule_format, OF okb small]
  have pb: "inAnyRound ?st ''1'' ''b''" .
  have nb: "\<not> slotHas ?st 0 1 ''b''"
  proof
    assume "slotHas ?st 0 1 ''b''"
    from tb [THEN conjunct2, THEN conjunct1, rule_format, OF slot this h1]
    show False by simp
  qed
  from tc [THEN conjunct2, THEN conjunct2, THEN conjunct1, rule_format, OF badc]
  have nc: "\<not> inAnyRound ?st ''1'' ''c''" and rn: "reportOf infoMixed = None" by simp_all
  from pool svc have "serverAt ?ps ''1'' ''c'' = Some ?sc" by (rule serverAtI)
  with badc have "\<exists>pk' s'. serverAt ?ps pk' ''c'' = Some s' \<and> \<not> areAllSetsOK s'" by blast
  with tc [THEN conjunct2, THEN conjunct2, THEN conjunct2, THEN conjunct1]
  have fc: "''c'' \<in> set (failureFile ?st)" by (rule iffD2)
  have "failureFile (roundsOf 2 infoMixed) = [''c'', ''d'']" by code_simp
  then have "failureFile ?st = [''c'', ''d'']" by (simp add: fin(1))
  then have fb: "''b'' \<notin> set (failureFile ?st)" by simp
  show ?thesis
    by (intro conjI) (fact g m len ks okb badc small slot pb h1 nb fb nc fc rn)+
qed

text \<open>
  Claim C4 as stated fails. On \<open>infoMixed\<close> every Server is in a round or in the failure
  list after two rounds, and the loop does not take the early exit: the Servers of the
  failure list are never counted as processed, so the loop goes through the 200 rounds
  and prints no report. On \<open>infoSpanBad\<close> the host \<open>b\<close> is in round 1, for the first pool,
  and in the failure list, for the second.
\<close>

theorem no_report_with_failure_list:
  "settled (roundsOf 2 infoMixed) \<and>
   map (roundFile (schedOf infoMixed)) [0, 1, 2] = [[''a''], [''b''], []] \<and>
   failureFile (schedOf infoMixed) = [''c'', ''d''] \<and>
   reportOf infoMixed = None \<and>
   map (roundFile (schedOf infoSpanBad)) [0, 1, 2] = [[''a''], [''b''], []] \<and>
   failureFile (schedOf infoSpanBad) = [''b'', ''c''] \<and>
   reportOf infoSpanBad = None"
proof -
  have n: "2 \<le> roundsLen" by (simp add: roundsLen_def)
  have g: "getInfra slashParser infoMixed = Inr (topoOf infoMixed, 4)" by code_simp
  have sl: "\<forall>pk\<in>fst ` set (topoOf infoMixed). poolSlot pk \<noteq> None" by code_simp
  have ran: "ranRounds 2 infoMixed" by code_simp
  have se: "settled (roundsOf 2 infoMixed)" by code_simp
  note fin = settled_final [OF g sl n ran se]
  have "map (roundFile (roundsOf 2 infoMixed)) [0, 1, 2] = [[''a''], [''b''], []]" by code_simp
  then have rf: "map (roundFile (schedOf infoMixed)) [0, 1, 2] = [[''a''], [''b''], []]"
    by (simp add: fin(2))
  have "failureFile (roundsOf 2 infoMixed) = [''c'', ''d'']" by code_simp
  then have ff: "failureFile (schedOf infoMixed) = [''c'', ''d'']" by (simp add: fin(1))
  have g': "getInfra slashParser infoSpanBad = Inr (topoOf infoSpanBad, 4)" by code_simp
  have sl': "\<forall>pk\<in>fst ` set (topoOf infoSpanBad). poolSlot pk \<noteq> None" by code_simp
  have ran': "ranRounds 2 infoSpanBad" by code_simp
  have se': "settled (roundsOf 2 infoSpanBad)" by code_simp
  note fin' = settled_final [OF g' sl' n ran' se']
  have "map (roundFile (roundsOf 2 infoSpanBad)) [0, 1, 2] = [[''a''], [''b''], []]" by code_simp
  then have rf': "map (roundFile (schedOf infoSpanBad)) [0, 1, 2] = [[''a''], [''b''], []]"
    by (simp add: fin'(2))
  have "failureFile (roundsOf 2 infoSpanBad) = [''b'', ''c'']" by code_simp
  then have ff': "failureFile (schedOf infoSpanBad) = [''b'', ''c'']" by (simp add: fin'(1))
  show ?thesis
    by (intro conjI) (fact se rf ff fin(4) rf' ff' fin'(4))+
qed

text \<open>
  Claim C7 (sole server), as the code has it. The only server of a pool is scheduled by
  the rule of every server. When all its Sets have \<open>CanReboot = true\<close> it is placed in
  round 0, and an entry of the failure list under its hostname, if there is one, is a
  server with a Set that cannot be rebooted, of another pool. When one of its Sets has
  \<open>CanReboot = false\<close> it is put on the failure list and in no round.
\<close>

theorem sole_server_schedule:
  assumes "getInfra parse info = Inr (ps, nsrv)" and "makeHostfile parse info = Inr (st, rep)"
    and "length (iDisks info) < 2 ^ 63"
    and "map_of ps pk = Some v" and "Servers v = [(h, s)]"
  shows "(areAllSetsOK s \<longrightarrow>
            (\<exists>pid. poolSlot pk = Some pid \<and> inRound st 0 pid h (s\<lparr>Processed := True\<rparr>)) \<and>
            (\<forall>x. map_of (unhealthy st) h = Some x \<longrightarrow> \<not> areAllSetsOK x)) \<and>
         (\<not> areAllSetsOK s \<longrightarrow> h \<in> fst ` set (unhealthy st) \<and> \<not> inAnyRound st pk h)"
proof -
  note g = assms(1) and len = assms(3) and pool = assms(4) and sole = assms(5)
  note r = makeHostfile_schedule [OF assms(1,2)]
  note wf = getInfra_wf(1) [OF g]
  note inv = schedule_sched_inv [OF r wf]
  have sa: "serverAt ps pk h = Some s" using pool sole by (simp add: serverAt_def)
  from first_round [OF g r len sa] obtain st1 where
    p0: "foldE (schedulePool 0) (stringKeysSorted ps) (sched_init ps) = Inr st1" and
    rest: "roundLoop 199 (Suc 0) (stringKeysSorted ps) nsrv st1 = Inr (st, rep)" by blast
  have a: "\<exists>pid. poolSlot pk = Some pid \<and> inRound st 0 pid h (s\<lparr>Processed := True\<rparr>)"
    if ok: "areAllSetsOK s"
  proof -
    from pass_sole [OF wf p0 pool sole ok] obtain pid where
      pid: "poolSlot pk = Some pid" "inRound st1 0 pid h (s\<lparr>Processed := True\<rparr>)" by blast
    from inRound_rounds [OF rest pid(2)] pid(1) show ?thesis by blast
  qed
  have b: "\<not> areAllSetsOK x" if "map_of (unhealthy st) h = Some x" for x
    using sched_invD(6) [OF inv that] by simp
  have c: "h \<in> fst ` set (unhealthy st)" if bad: "\<not> areAllSetsOK s"
  proof -
    from pass_unhealthy [OF sched_inv_init [OF wf] wf p0 pool_key_visited [OF pool] sa bad]
    have "h \<in> fst ` set (unhealthy st1)" .
    with rest show ?thesis by (rule unhealthy_keys_rounds)
  qed
  have d: "\<not> inAnyRound st pk h" if bad: "\<not> areAllSetsOK s"
  proof
    assume ia: "inAnyRound st pk h"
    from sched_invD(3) [OF inv, of pk h] sa ia
    have s': "serverAt (ss_pools st) pk h = Some (s\<lparr>Processed := True\<rparr>)" by simp
    from sched_inv_processed_ok [OF inv wf s'] have "areAllSetsOK s" by simp
    with bad show False by simp
  qed
  from a b c d show ?thesis by blast
qed

text \<open>
  One pool with one server and no bad disk: the server is in round 0.
\<close>

theorem sole_server_schedule_witness:
  "getInfra slashParser infoSoleOk = Inr (topoOf infoSoleOk, 1) \<and>
   makeHostfile slashParser infoSoleOk = Inr (schedOf infoSoleOk, reportOf infoSoleOk) \<and>
   length (iDisks infoSoleOk) < 2 ^ 63 \<and>
   map_of (topoOf infoSoleOk) ''1'' \<noteq> None \<and>
   Servers (the (map_of (topoOf infoSoleOk) ''1'')) =
     [(''a'', snd (hd (Servers (the (map_of (topoOf infoSoleOk) ''1'')))))] \<and>
   areAllSetsOK (snd (hd (Servers (the (map_of (topoOf infoSoleOk) ''1''))))) \<and>
   (\<exists>pid. poolSlot ''1'' = Some pid \<and> inRound (schedOf infoSoleOk) 0 pid ''a''
      ((snd (hd (Servers (the (map_of (topoOf infoSoleOk) ''1'')))))\<lparr>Processed := True\<rparr>))"
proof -
  let ?v = "the (map_of (topoOf infoSoleOk) ''1'')"
  let ?s = "snd (hd (Servers ?v))"
  have g: "getInfra slashParser infoSoleOk = Inr (topoOf infoSoleOk, 1)" by code_simp
  have sl: "\<forall>pk\<in>fst ` set (topoOf infoSoleOk). poolSlot pk \<noteq> None" by code_simp
  have m: "makeHostfile slashParser infoSoleOk = Inr (schedOf infoSoleOk, reportOf infoSoleOk)"
    using g sl by (rule makeHostfile_schedOf_total)
  have l: "length (iDisks infoSoleOk) < 2 ^ 63" by (simp add: infoSoleOk_def)
  have n: "map_of (topoOf infoSoleOk) ''1'' \<noteq> None" by code_simp
  then have p: "map_of (topoOf infoSoleOk) ''1'' = Some ?v" by (simp del: not_None_eq)
  have sv: "Servers ?v = [(''a'', ?s)]" by code_simp
  have ok: "areAllSetsOK ?s" by code_simp
  from sole_server_schedule [OF g m l p sv] ok
  have e: "\<exists>pid. poolSlot ''1'' = Some pid \<and> inRound (schedOf infoSoleOk) 0 pid ''a'' (?s\<lparr>Processed := True\<rparr>)"
    by (rule conjunct1 [THEN mp, THEN conjunct1])
  show ?thesis
    by (intro conjI) (fact g m l n sv ok e)+
qed

text \<open>
  Claim C7 as stated fails: the only server of the pool has a Set with parity 2 and one
  bad disk, and it is on the failure list and in no round.
\<close>

theorem sole_server_in_failure_list:
  "map fst (Servers (the (map_of (topoOf infoSoleBad) ''1''))) = [''a''] \<and>
   \<not> areAllSetsOK (snd (hd (Servers (the (map_of (topoOf infoSoleBad) ''1''))))) \<and>
   ''a'' \<in> set (failureFile (schedOf infoSoleBad)) \<and>
   \<not> inAnyRound (schedOf infoSoleBad) ''1'' ''a''"
proof -
  let ?s = "snd (hd (Servers (the (map_of (topoOf infoSoleBad) ''1''))))"
  have g: "getInfra slashParser infoSoleBad = Inr (topoOf infoSoleBad, 1)" by code_simp
  have sl: "\<forall>pk\<in>fst ` set (topoOf infoSoleBad). poolSlot pk \<noteq> None" by code_simp
  have m: "makeHostfile slashParser infoSoleBad = Inr (schedOf infoSoleBad, reportOf infoSoleBad)"
    using g sl by (rule makeHostfile_schedOf_total)
  have l: "length (iDisks infoSoleBad) < 2 ^ 63" by (simp add: infoSoleBad_def)
  have k: "map fst (Servers (the (map_of (topoOf infoSoleBad) ''1''))) = [''a'']" by code_simp
  have sa: "serverAt (topoOf infoSoleBad) ''1'' ''a'' = Some ?s" by code_simp
  have bad: "\<not> areAllSetsOK ?s" by code_simp
  note u = unhealthy_server_outcome [OF g m l sa bad]
  show ?thesis
    by (intro conjI) (fact k bad u)+
qed




section \<open>The heal orchestrator\<close>

text \<open>
  Claim C5 (heal coverage), as the code has it. On the topology getInfra returns, \<open>heal\<close>
  does not panic and starts exactly one monitor for every pair of a pool and a set that is
  present on the server whose endpoint is the configured \<open>endpoint\<close>, or on the only
  server of a pool, and for no other pair; the pair is the pool index and set index of the
  disk records. The first call of every monitor starts the heal, recursive, scan mode 1,
  not a dry run.
\<close>

theorem heal_coverage:
  assumes "getInfra parse info = Inr (ps, nsrv)"
  shows "\<exists>hs. healStart endpoint ps = Inr hs \<and> distinct (monitors hs) \<and>
          (\<forall>p s. (p, s) \<in> set (monitors hs) \<longleftrightarrow>
             (\<exists>v h. map_of ps (Itoa (p + 1)) = Some v \<and>
                    (endpoint = h \<or> length (Servers v) = 1) \<and>
                    view ps (Itoa (p + 1)) h (s + 1) \<noteq> None)) \<and>
          (\<forall>p s replies. hd (fst (healSet p s replies)) =
             HealCall \<lparr>DryRun = False, Remove = False, Recreate = False, UpdateParity = False,
               NoLock = False, Recursive = True, ScanMode = 1, hoPool = p, hoSet = s\<rparr> True False)"
proof -
  note gp = getInfra_goodPools [OF assms]
  have at: "\<forall>iv\<in>set ps. Atoi (fst iv) \<noteq> None"
    using gp(2) by (auto simp: goodPool_def Atoi_Itoa)
  from healPools_monitors [OF at, of endpoint "\<lparr>healMap = [], monitors = []\<rparr>"]
  obtain hs where hs: "healStart endpoint ps = Inr hs"
    and ms: "monitors hs = concat (map (poolMonitors endpoint) ps)"
    by (auto simp: healStart_def)
  have d: "distinct (monitors hs)" unfolding ms using gp by (rule allMonitors_distinct)
  have mem: "(p, s) \<in> set (monitors hs) \<longleftrightarrow>
             (\<exists>v h. map_of ps (Itoa (p + 1)) = Some v \<and>
                    (endpoint = h \<or> length (Servers v) = 1) \<and>
                    view ps (Itoa (p + 1)) h (s + 1) \<noteq> None)" (is "?L \<longleftrightarrow> ?R") for p s
  proof
    assume ?L
    then obtain iv where iv: "iv \<in> set ps" "(p, s) \<in> set (poolMonitors endpoint iv)"
      unfolding ms by auto
    from iv(1) gp(1) have m: "map_of ps (fst iv) = Some (snd iv)" by simp
    from iv gp(2) poolMonitors_mem [of iv p s endpoint] obtain h vv where
      a: "map_of (Servers (snd iv)) h = Some vv" "endpoint = h \<or> length (Servers (snd iv)) = 1"
        "fst iv = Itoa (p + 1)" "map_of (Sets vv) (s + 1) \<noteq> None" by blast
    from m a have "view ps (Itoa (p + 1)) h (s + 1) \<noteq> None" by (simp add: view_def)
    with m a show ?R by auto
  next
    assume ?R
    then obtain v h where b: "map_of ps (Itoa (p + 1)) = Some v"
      "endpoint = h \<or> length (Servers v) = 1" "view ps (Itoa (p + 1)) h (s + 1) \<noteq> None" by blast
    from b(1) have iv: "(Itoa (p + 1), v) \<in> set ps" by (rule map_of_SomeD)
    from b(1,3) obtain vv where vv: "map_of (Servers v) h = Some vv" "map_of (Sets vv) (s + 1) \<noteq> None"
      by (auto simp: view_def split: option.splits)
    from iv gp(2) have "goodPool (Itoa (p + 1), v)" by blast
    from poolMonitors_mem [OF this, of p s endpoint] b(2) vv
    have "(p, s) \<in> set (poolMonitors endpoint (Itoa (p + 1), v))" by auto
    with iv show ?L unfolding ms by auto
  qed
  have c: "hd (fst (healSet p s replies)) =
             HealCall \<lparr>DryRun = False, Remove = False, Recreate = False, UpdateParity = False,
               NoLock = False, Recursive = True, ScanMode = 1, hoPool = p, hoSet = s\<rparr> True False"
    for p s replies
    by (auto simp: healSet_def healOpts_def split: list.splits heal_reply.splits prod.splits
        monitor_status.splits)
  from hs d mem c show ?thesis by blast
qed

text \<open>
  With the endpoint \<open>a\<close>, set index 1 of pool index 0 is on server \<open>a\<close> and gets its
  monitor.
\<close>

theorem heal_coverage_witness:
  "getInfra slashParser info2 = Inr (topoOf info2, 2) \<and>
   healStart ''a'' (topoOf info2) =
      Inr \<lparr>healMap = [(''0/0'', 1), (''0/1'', 1)], monitors = [(0, 0), (0, 1)]\<rparr> \<and>
   view (topoOf info2) (Itoa (0 + 1)) ''a'' (1 + 1) \<noteq> None \<and>
   (0, 1) \<in> set (monitors \<lparr>healMap = [(''0/0'', 1), (''0/1'', 1)], monitors = [(0, 0), (0, 1)]\<rparr>)"
proof -
  have g: "getInfra slashParser info2 = Inr (topoOf info2, 2)" by code_simp
  have h: "healStart ''a'' (topoOf info2) =
      Inr \<lparr>healMap = [(''0/0'', 1), (''0/1'', 1)], monitors = [(0, 0), (0, 1)]\<rparr>" by code_simp
  have v: "view (topoOf info2) (Itoa (0 + 1)) ''a'' (1 + 1) \<noteq> None" by code_simp
  have p: "map_of (topoOf info2) (Itoa (0 + 1)) \<noteq> None" by code_simp
  from p obtain v0 where v0: "map_of (topoOf info2) (Itoa (0 + 1)) = Some v0" by blast
  from heal_coverage [OF g, of "''a''"] obtain hs where a:
    "healStart ''a'' (topoOf info2) = Inr hs \<and> distinct (monitors hs) \<and>
          (\<forall>p s. (p, s) \<in> set (monitors hs) \<longleftrightarrow>
             (\<exists>v h. map_of (topoOf info2) (Itoa (p + 1)) = Some v \<and>
                    (''a'' = h \<or> length (Servers v) = 1) \<and>
                    view (topoOf info2) (Itoa (p + 1)) h (s + 1) \<noteq> None)) \<and>
          (\<forall>p s replies. hd (fst (healSet p s replies)) =
             HealCall \<lparr>DryRun = False, Remove = False, Recreate = False, UpdateParity = False,
               NoLock = False, Recursive = True, ScanMode = 1, hoPool = p, hoSet = s\<rparr> True False)" ..
  note hs = a [THEN conjunct1]
  note mem = a [THEN conjunct2, THEN conjunct2, THEN conjunct1, rule_format]
  from v0 v have "\<exists>v h. map_of (topoOf info2) (Itoa (0 + 1)) = Some v \<and>
                    (''a'' = h \<or> length (Servers v) = 1) \<and>
                    view (topoOf info2) (Itoa (0 + 1)) h (1 + 1) \<noteq> None"
    by (intro exI [of _ v0] exI [of _ "''a''"] conjI disjI1 refl)
  then have m: "(0, 1) \<in> set (monitors hs)" by (rule mem [THEN iffD2])
  from hs h have "Inr hs = (Inr \<lparr>healMap = [(''0/0'', 1), (''0/1'', 1)], monitors = [(0, 0), (0, 1)]\<rparr> :: panic + heal_state)"
    by (rule trans [OF sym])
  then have "hs = \<lparr>healMap = [(''0/0'', 1), (''0/1'', 1)], monitors = [(0, 0), (0, 1)]\<rparr>"
    by (rule sum.inject(2) [THEN iffD1])
  with m have m': "(0, 1) \<in> set (monitors \<lparr>healMap = [(''0/0'', 1), (''0/1'', 1)], monitors = [(0, 0), (0, 1)]\<rparr>)"
    by (rule subst [where P = "\<lambda>x. (0, 1) \<in> set (monitors x)", rotated])
  show ?thesis
    by (intro conjI) (fact g h v m')+
qed

text \<open>
  Claim C5 as stated fails: a pool of two servers, neither of which is the configured
  endpoint (here the default \<open>127.0.0.1\<close>), has its sets in the topology, and \<open>heal\<close>
  starts no monitor at all.
\<close>

theorem heal_skips_sets_of_other_servers:
  "view (topoOf info2) ''1'' ''a'' 1 \<noteq> None \<and> view (topoOf info2) ''1'' ''a'' 2 \<noteq> None \<and>
   view (topoOf info2) ''1'' ''b'' 1 \<noteq> None \<and> view (topoOf info2) ''1'' ''b'' 2 \<noteq> None \<and>
   healStart ''127.0.0.1'' (topoOf info2) = Inr \<lparr>healMap = [], monitors = []\<rparr>"
  by code_simp

text \<open>
  Claim C6 (keying of the progress map) against the code. \<open>heal\<close> registers the sets 0
  and 1 of pool 0 under \<open>0/0\<close> and \<open>0/1\<close>; the monitor of pool 0, set 1 writes its
  count of 3 under \<open>0/0\<close>, the key made of the pool index twice, and the entry \<open>0/1\<close>
  keeps the 1 it was registered with.
\<close>

theorem healSet_writes_pool_pool_key:
  "healStart ''a'' (topoOf info2) =
     Inr \<lparr>healMap = [(''0/0'', 1), (''0/1'', 1)], monitors = [(0, 0), (0, 1)]\<rparr> \<and>
   applyEvents (fst (healSet 0 1 [HealStatus [], HealStatus [item3]])) [(''0/0'', 1), (''0/1'', 1)]
     = [(''0/0'', 3), (''0/1'', 1)] \<and>
   sprintf_d_slash_d 0 1 = ''0/1''"
  by code_simp




end
